theory Spec2Isabelle
  imports Complex_Main "HOL-Library.AList" "HOL-Library.Multiset"
begin

section \<open>The data-shaping pipeline of LineGraphVisualization.tsx\<close>

text \<open>
  The development embeds the pure functions of \<^verbatim>\<open>src/LineGraphVisualization.tsx\<close>
  (\<^verbatim>\<open>formatDate\<close>, \<^verbatim>\<open>calculateSimpleMovingAverage\<close>, \<^verbatim>\<open>generateDateRange\<close>) and the body
  of the data-fetching callback (lookup, totals, ranking, densification, smoothing).

  Conventions of the embedding:
  \<^item> a JavaScript \<^verbatim>\<open>number\<close> is a rational (\<^typ>\<open>rat\<close>): sums and quotients are exact, and
    \<^verbatim>\<open>NaN\<close>, the infinities and the rounding of doubles are not represented;
  \<^item> a JavaScript string is a \<^typ>\<open>string\<close>, one \<^typ>\<open>char\<close> per code unit (ASCII text);
  \<^item> a thrown exception is the left summand of a result type;
  \<^item> an object used as a dictionary (\<^verbatim>\<open>ChartDataPoint\<close>) is an association list of its own
    data properties in insertion order; the \<^verbatim>\<open>Map\<close> \<^verbatim>\<open>dataLookup\<close> is a partial function.
\<close>

subsection \<open>String primitives of the runtime\<close>

text \<open>\<^verbatim>\<open>s.split(c)\<close> for a one-character separator: always at least one component.\<close>

fun split_on :: "char \<Rightarrow> string \<Rightarrow> string list" where
  "split_on c [] = [[]]"
| "split_on c (x # xs) =
     (if x = c then [] # split_on c xs
      else (case split_on c xs of
              [] \<Rightarrow> [[x]]
            | p # ps \<Rightarrow> (x # p) # ps))"

text \<open>
  \<^verbatim>\<open>s.padStart(targetLength, padString)\<close>: the string itself when it is long enough or the
  filler is empty, otherwise the filler repeated and cut to the missing length, then \<^verbatim>\<open>s\<close>.
\<close>

definition padStart :: "string \<Rightarrow> nat \<Rightarrow> string \<Rightarrow> string" where
  "padStart s targetLength padString =
     (if targetLength \<le> length s \<or> padString = [] then s
      else take (targetLength - length s)
             (concat (replicate (targetLength - length s) padString)) @ s)"

text \<open>
  \<^verbatim>\<open>xs.slice(start, fin)\<close>: a negative index counts from the end of the array, and both
  indices are clamped to the array.
\<close>

definition relative_index :: "nat \<Rightarrow> int \<Rightarrow> nat" where
  "relative_index len k = (if k < 0 then nat (max (int len + k) 0) else min (nat k) len)"

definition slice :: "'a list \<Rightarrow> int \<Rightarrow> int \<Rightarrow> 'a list" where
  "slice xs start fin =
     (let from = relative_index (length xs) start;
          upto = relative_index (length xs) fin
      in take (upto - from) (drop from xs))"

subsection \<open>The Date object of the runtime\<close>

text \<open>
  \<^verbatim>\<open>generateDateRange\<close> works through \<^verbatim>\<open>Date\<close>. A \<^verbatim>\<open>Date\<close> holds a time value: the milliseconds
  since 1970-01-01T00:00:00Z. The functions below follow the definitions of the ECMAScript
  specification (\<^verbatim>\<open>Day\<close>, \<^verbatim>\<open>DaysInYear\<close>, \<^verbatim>\<open>DayFromYear\<close>, \<^verbatim>\<open>YearFromTime\<close>, \<^verbatim>\<open>MonthFromTime\<close>,
  \<^verbatim>\<open>DateFromTime\<close>, \<^verbatim>\<open>MakeDay\<close>, \<^verbatim>\<open>MakeDate\<close>, \<^verbatim>\<open>LocalTime\<close>, \<^verbatim>\<open>UTC\<close>); months count from 0.

  \<^verbatim>\<open>getDate\<close> and \<^verbatim>\<open>setDate\<close> work in the local time of the host, \<^verbatim>\<open>toISOString\<close> and the parsing of
  a date-only string in UTC. The time zone of the host is a parameter of the model: its
  offset from UTC in standard time, and the times at which daylight-saving time, one hour
  ahead, is in effect.

  \<^verbatim>\<open>new Date(s)\<close> is modelled on the date-only form \<^verbatim>\<open>YYYY-MM-DD\<close> of a calendar date, read as
  midnight UTC; every other string is taken as an invalid date (\<^const>\<open>None\<close>). Time values stay
  within the range of \<^verbatim>\<open>Date\<close> for all four-digit years, so the clipping of time values is left
  out.
\<close>

definition msPerDay :: int where
  "msPerDay = 86400000"

definition Day :: "int \<Rightarrow> int" where
  "Day t = t div msPerDay"

definition TimeWithinDay :: "int \<Rightarrow> int" where
  "TimeWithinDay t = t mod msPerDay"

definition DaysInYear :: "int \<Rightarrow> int" where
  "DaysInYear y =
     (if y mod 4 \<noteq> 0 then 365
      else if y mod 100 \<noteq> 0 then 366
      else if y mod 400 \<noteq> 0 then 365
      else 366)"

definition DayFromYear :: "int \<Rightarrow> int" where
  "DayFromYear y =
     365 * (y - 1970) + (y - 1969) div 4 - (y - 1901) div 100 + (y - 1601) div 400"

text \<open>The length of a year, step by step: needed to find the year of a day number.\<close>

lemma div_step:
  fixes a n :: int
  assumes "0 < n"
  shows "(a + 1) div n = a div n + (if (a + 1) mod n = 0 then 1 else 0)"
proof (cases "(a + 1) mod n = 0")
  case True
  then obtain q where q: "a + 1 = q * n"
    by (metis mod_eq_0_iff_dvd dvd_def mult.commute)
  then have a: "a = (q - 1) * n + (n - 1)"
    by (simp add: algebra_simps)
  have "a div n = q - 1"
    by (subst a) (use assms in \<open>simp add: div_pos_pos_trivial\<close>)
  moreover have "(a + 1) div n = q"
    using q assms by simp
  ultimately show ?thesis
    using True by simp
next
  case False
  define r where "r = a mod n"
  define q where "q = a div n"
  have a: "a = q * n + r"
    by (simp add: q_def r_def)
  have r: "0 \<le> r" "r < n"
    using assms by (simp_all add: r_def)
  have "r + 1 \<noteq> n"
  proof
    assume "r + 1 = n"
    then have "a + 1 = (q + 1) * n"
      using a by (simp add: algebra_simps)
    then have "(a + 1) mod n = 0"
      by simp
    with False show False
      by simp
  qed
  then have "r + 1 < n"
    using r by simp
  have "a + 1 = n * q + (r + 1)"
    using a by simp
  then have "(a + 1) div n = q"
    using \<open>r + 1 < n\<close> r by (intro int_div_pos_eq [where r = "r + 1"]) simp_all
  then show ?thesis
    using False by (simp add: q_def)
qed

lemma mod_shift:
  fixes y n k :: int
  shows "(y - k * n) mod n = y mod n"
  using mod_mult_self1 [of y "- k" n] by simp

lemma mod_0_coarser:
  fixes y a b :: "'a::semidom_modulo"
  assumes "y mod b = 0" "a dvd b"
  shows "y mod a = 0"
proof -
  have "b dvd y"
    using assms(1) by (simp add: mod_eq_0_iff_dvd)
  with assms(2) have "a dvd y"
    by (rule dvd_trans)
  then show ?thesis
    by (simp add: mod_eq_0_iff_dvd)
qed

lemma DayFromYear_Suc: "DayFromYear (y + 1) = DayFromYear y + DaysInYear y"
proof -
  have s4: "(y + 1 - 1969) div 4 = (y - 1969) div 4 + (if y mod 4 = 0 then 1 else 0)"
    using div_step [of 4 "y - 1969"] mod_shift [of y 492 4] by simp
  have s100: "(y + 1 - 1901) div 100 = (y - 1901) div 100 + (if y mod 100 = 0 then 1 else 0)"
    using div_step [of 100 "y - 1901"] mod_shift [of y 19 100] by simp
  have s400: "(y + 1 - 1601) div 400 = (y - 1601) div 400 + (if y mod 400 = 0 then 1 else 0)"
    using div_step [of 400 "y - 1601"] mod_shift [of y 4 400] by simp
  have m100: "y mod 100 = 0 \<Longrightarrow> y mod 4 = 0"
    by (rule mod_0_coarser [of y 100 4]) simp_all
  have m400: "y mod 400 = 0 \<Longrightarrow> y mod 100 = 0"
    by (rule mod_0_coarser [of y 400 100]) simp_all
  show ?thesis
    unfolding DayFromYear_def DaysInYear_def s4 s100 s400
    using m100 m400 by auto
qed

lemma DaysInYear_pos: "365 \<le> DaysInYear y"
  by (simp add: DaysInYear_def)

text \<open>
  \<^verbatim>\<open>YearFromTime(t)\<close> is the largest year whose first day is not after \<open>t\<close>. The search starts
  from a year that is not too late and walks up.
\<close>

function year_search :: "int \<Rightarrow> int \<Rightarrow> int" where
  "year_search y d = (if DayFromYear (y + 1) \<le> d then year_search (y + 1) d else y)"
  by pat_completeness auto
termination
proof (relation "measure (\<lambda>(y, d). nat (d + 1 - DayFromYear (y + 1)))")
  show "wf (measure (\<lambda>(y, d). nat (d + 1 - DayFromYear (y + 1))))"
    by simp
next
  fix y d :: int
  assume "DayFromYear (y + 1) \<le> d"
  moreover have "DayFromYear (y + 1) < DayFromYear (y + 1 + 1)"
    using DayFromYear_Suc [of "y + 1"] DaysInYear_pos [of "y + 1"] by linarith
  ultimately show "((y + 1, d), (y, d)) \<in> measure (\<lambda>(y, d). nat (d + 1 - DayFromYear (y + 1)))"
    by simp
qed

declare year_search.simps [simp del]

definition YearFromDay :: "int \<Rightarrow> int" where
  "YearFromDay d = year_search (1970 + (if 0 \<le> d then d div 366 else d div 365)) d"

definition YearFromTime :: "int \<Rightarrow> int" where
  "YearFromTime t = YearFromDay (Day t)"

definition InLeapYear :: "int \<Rightarrow> int" where
  "InLeapYear t = (if DaysInYear (YearFromTime t) = 366 then 1 else 0)"

definition DayWithinYear :: "int \<Rightarrow> int" where
  "DayWithinYear t = Day t - DayFromYear (YearFromTime t)"

definition MonthFromTime :: "int \<Rightarrow> int" where
  "MonthFromTime t =
     (let d = DayWithinYear t; l = InLeapYear t in
      if d < 31 then 0
      else if d < 59 + l then 1
      else if d < 90 + l then 2
      else if d < 120 + l then 3
      else if d < 151 + l then 4
      else if d < 181 + l then 5
      else if d < 212 + l then 6
      else if d < 243 + l then 7
      else if d < 273 + l then 8
      else if d < 304 + l then 9
      else if d < 334 + l then 10
      else 11)"

definition DateFromTime :: "int \<Rightarrow> int" where
  "DateFromTime t =
     (let d = DayWithinYear t; l = InLeapYear t; m = MonthFromTime t in
      if m = 0 then d + 1
      else if m = 1 then d - 30
      else if m = 2 then d - 58 - l
      else if m = 3 then d - 89 - l
      else if m = 4 then d - 119 - l
      else if m = 5 then d - 150 - l
      else if m = 6 then d - 180 - l
      else if m = 7 then d - 211 - l
      else if m = 8 then d - 242 - l
      else if m = 9 then d - 272 - l
      else if m = 10 then d - 303 - l
      else d - 333 - l)"

text \<open>
  \<^verbatim>\<open>MakeDay(year, month, date)\<close>: the day number of the first day of the month (\<open>monthStart\<close> is
  its offset within the year), plus \<open>date - 1\<close>; out-of-range months and dates carry over.
\<close>

definition monthStart :: "int \<Rightarrow> int \<Rightarrow> int" where
  "monthStart ym mn =
     (let l = (if DaysInYear ym = 366 then 1 else 0) in
      if mn = 0 then 0
      else if mn = 1 then 31
      else if mn = 2 then 59 + l
      else if mn = 3 then 90 + l
      else if mn = 4 then 120 + l
      else if mn = 5 then 151 + l
      else if mn = 6 then 181 + l
      else if mn = 7 then 212 + l
      else if mn = 8 then 243 + l
      else if mn = 9 then 273 + l
      else if mn = 10 then 304 + l
      else 334 + l)"

definition MakeDay :: "int \<Rightarrow> int \<Rightarrow> int \<Rightarrow> int" where
  "MakeDay year month date =
     (let ym = year + month div 12; mn = month mod 12
      in DayFromYear ym + monthStart ym mn + date - 1)"

definition MakeDate :: "int \<Rightarrow> int \<Rightarrow> int" where
  "MakeDate day time = day * msPerDay + time"

text \<open>
  The time zone of the host. \<open>LocalTZA h t\<close> is the offset in effect at the UTC time value \<open>t\<close>.
  \<open>UTC h t\<close> reads a local time value: when it names two instants (the hour repeated at the end
  of daylight-saving time) the earlier one is taken, and when it names none (the hour skipped
  at its start) the offset before the transition is used.
\<close>

record host =
  standard_offset :: int
  daylight :: "int \<Rightarrow> bool"

definition msPerHour :: int where
  "msPerHour = 3600000"

definition LocalTZA :: "host \<Rightarrow> int \<Rightarrow> int" where
  "LocalTZA h t = standard_offset h + (if daylight h t then msPerHour else 0)"

definition LocalTime :: "host \<Rightarrow> int \<Rightarrow> int" where
  "LocalTime h t = t + LocalTZA h t"

definition UTC :: "host \<Rightarrow> int \<Rightarrow> int" where
  "UTC h t =
     (let summer = t - standard_offset h - msPerHour;
          winter = t - standard_offset h
      in if daylight h summer then summer else winter)"

text \<open>\<^verbatim>\<open>d.getDate()\<close> and \<^verbatim>\<open>d.setDate(dt)\<close>; the latter returns the new time value of \<^verbatim>\<open>d\<close>.\<close>

definition getDate :: "host \<Rightarrow> int \<Rightarrow> int" where
  "getDate h t = DateFromTime (LocalTime h t)"

definition setDate :: "host \<Rightarrow> int \<Rightarrow> int \<Rightarrow> int" where
  "setDate h t dt =
     (let lt = LocalTime h t
      in UTC h (MakeDate (MakeDay (YearFromTime lt) (MonthFromTime lt) dt) (TimeWithinDay lt)))"

text \<open>
  \<^verbatim>\<open>d.toISOString()\<close>: \<^verbatim>\<open>YYYY-MM-DDTHH:mm:ss.sssZ\<close>, with a sign and six digits for years outside
  0 to 9999.
\<close>

definition digit_char :: "nat \<Rightarrow> char" where
  "digit_char n = ''0123456789'' ! (n mod 10)"

fun decimal :: "nat \<Rightarrow> nat \<Rightarrow> string" where
  "decimal 0 n = []"
| "decimal (Suc w) n = decimal w (n div 10) @ [digit_char n]"

definition year_text :: "int \<Rightarrow> string" where
  "year_text y =
     (if 0 \<le> y \<and> y \<le> 9999 then decimal 4 (nat y)
      else (if y < 0 then ''-'' else ''+'') @ decimal 6 (nat \<bar>y\<bar>))"

definition toISOString :: "int \<Rightarrow> string" where
  "toISOString t =
     (let ms = TimeWithinDay t in
      year_text (YearFromTime t) @ ''-'' @ decimal 2 (nat (MonthFromTime t + 1)) @ ''-'' @
      decimal 2 (nat (DateFromTime t)) @ ''T'' @
      decimal 2 (nat (ms div 3600000)) @ '':'' @
      decimal 2 (nat (ms div 60000 mod 60)) @ '':'' @
      decimal 2 (nat (ms div 1000 mod 60)) @ ''.'' @
      decimal 3 (nat (ms mod 1000)) @ ''Z'')"

definition digit_val :: "char \<Rightarrow> nat option" where
  "digit_val c = (if c \<in> set ''0123456789'' then Some (of_char c - 48) else None)"

fun read_decimal :: "nat \<Rightarrow> string \<Rightarrow> nat option" where
  "read_decimal acc [] = Some acc"
| "read_decimal acc (c # cs) =
     (case digit_val c of None \<Rightarrow> None | Some v \<Rightarrow> read_decimal (10 * acc + v) cs)"

text \<open>\<^verbatim>\<open>new Date(s)\<close> on \<^verbatim>\<open>YYYY-MM-DD\<close>; \<^const>\<open>None\<close> is the invalid date.\<close>

definition leap_year :: "nat \<Rightarrow> bool" where
  "leap_year y = (y mod 4 = 0 \<and> (y mod 100 \<noteq> 0 \<or> y mod 400 = 0))"

definition days_in_month :: "nat \<Rightarrow> nat \<Rightarrow> nat" where
  "days_in_month y m =
     (if m = 2 then (if leap_year y then 29 else 28)
      else if m = 4 \<or> m = 6 \<or> m = 9 \<or> m = 11 then 30
      else 31)"

definition Date_parse :: "string \<Rightarrow> int option" where
  "Date_parse s =
     (if length s = 10 \<and> s ! 4 = CHR ''-'' \<and> s ! 7 = CHR ''-'' then
        (case (read_decimal 0 (take 4 s), read_decimal 0 (take 2 (drop 5 s)),
               read_decimal 0 (drop 8 s)) of
           (Some y, Some m, Some d) \<Rightarrow>
             (if 1 \<le> m \<and> m \<le> 12 \<and> 1 \<le> d \<and> d \<le> days_in_month y m
              then Some (MakeDate (MakeDay (int y) (int m - 1) (int d)) 0)
              else None)
         | _ \<Rightarrow> None)
      else None)"

text \<open>
  The loop of \<^verbatim>\<open>generateDateRange\<close> terminates because \<^verbatim>\<open>setDate(getDate() + 1)\<close> moves the time
  value forward: by one day, give or take the hour of a daylight-saving transition.
\<close>

lemma DaysInYear_le: "DaysInYear y \<le> 366"
  by (simp add: DaysInYear_def)

lemma DayFromYear_1970: "DayFromYear 1970 = 0"
  by (simp add: DayFromYear_def)

lemma DayFromYear_mono_aux: "DayFromYear y + 365 * int n \<le> DayFromYear (y + int n)"
proof (induction n)
  case 0
  then show ?case by simp
next
  case (Suc n)
  have "DayFromYear (y + int (Suc n)) = DayFromYear (y + int n) + DaysInYear (y + int n)"
    using DayFromYear_Suc [of "y + int n"] by (simp add: add.commute add.left_commute)
  then show ?case
    using Suc DaysInYear_pos [of "y + int n"] by simp
qed

lemma DayFromYear_mono: "y \<le> y' \<Longrightarrow> DayFromYear y + 365 * (y' - y) \<le> DayFromYear y'"
  using DayFromYear_mono_aux [of y "nat (y' - y)"] by simp

lemma DayFromYear_upper_aux: "DayFromYear (y + int n) \<le> DayFromYear y + 366 * int n"
proof (induction n)
  case 0
  then show ?case by simp
next
  case (Suc n)
  have "DayFromYear (y + int (Suc n)) = DayFromYear (y + int n) + DaysInYear (y + int n)"
    using DayFromYear_Suc [of "y + int n"] by (simp add: add.commute add.left_commute)
  then show ?case
    using Suc DaysInYear_le [of "y + int n"] by simp
qed

lemma year_search_start: "DayFromYear (1970 + (if 0 \<le> d then d div 366 else d div 365)) \<le> d"
proof (cases "0 \<le> d")
  case True
  have "DayFromYear (1970 + int (nat (d div 366))) \<le> 366 * int (nat (d div 366))"
    using DayFromYear_upper_aux [of 1970 "nat (d div 366)"] by (simp add: DayFromYear_1970)
  moreover have "0 \<le> d div 366"
    using True by (simp add: pos_imp_zdiv_nonneg_iff)
  moreover have "366 * (d div 366) \<le> d"
    using mult_div_mod_eq [of 366 d] pos_mod_sign [of 366 d] by linarith
  ultimately show ?thesis
    using True by simp
next
  case False
  define k where "k = d div 365"
  have "k < 0"
    using False by (simp add: k_def div_neg_pos_less0)
  have "DayFromYear (1970 + k) + 365 * int (nat (- k)) \<le> DayFromYear (1970 + k + int (nat (- k)))"
    by (rule DayFromYear_mono_aux)
  then have "DayFromYear (1970 + k) \<le> 365 * k"
    using \<open>k < 0\<close> by (simp add: DayFromYear_1970)
  moreover have "365 * k \<le> d"
    unfolding k_def using mult_div_mod_eq [of 365 d] pos_mod_sign [of 365 d] by linarith
  ultimately show ?thesis
    using False by (simp add: k_def)
qed

lemma year_search_bounds:
  "DayFromYear y \<le> d \<Longrightarrow>
   DayFromYear (year_search y d) \<le> d \<and> d < DayFromYear (year_search y d + 1)"
proof (induction y d rule: year_search.induct)
  case (1 y d)
  show ?case
  proof (cases "DayFromYear (y + 1) \<le> d")
    case True
    then show ?thesis
      using 1 by (subst (1 2) year_search.simps) simp
  next
    case False
    then show ?thesis
      using 1 by (subst (1 2) year_search.simps) simp
  qed
qed

lemma YearFromDay_bounds:
  "DayFromYear (YearFromDay d) \<le> d \<and> d < DayFromYear (YearFromDay d + 1)"
  unfolding YearFromDay_def by (rule year_search_bounds) (rule year_search_start)

lemma year_unique:
  assumes "DayFromYear y \<le> d" "d < DayFromYear (y + 1)"
    and "DayFromYear y' \<le> d" "d < DayFromYear (y' + 1)"
  shows "y = y'"
proof (rule ccontr)
  assume "y \<noteq> y'"
  then consider "y + 1 \<le> y'" | "y' + 1 \<le> y"
    by linarith
  then show False
  proof cases
    case 1
    then show ?thesis
      using DayFromYear_mono [of "y + 1" y'] assms by simp
  next
    case 2
    then show ?thesis
      using DayFromYear_mono [of "y' + 1" y] assms by simp
  qed
qed

lemma YearFromDay_eq:
  "DayFromYear y \<le> d \<Longrightarrow> d < DayFromYear (y + 1) \<Longrightarrow> YearFromDay d = y"
  using YearFromDay_bounds [of d] by (auto intro: year_unique)

lemma msPerDay_pos: "0 < msPerDay"
  by (simp add: msPerDay_def)

lemma DayWithinYear_bounds:
  "0 \<le> DayWithinYear t \<and> DayWithinYear t < DaysInYear (YearFromTime t)"
  using YearFromDay_bounds [of "Day t"] DayFromYear_Suc [of "YearFromDay (Day t)"]
  by (simp add: DayWithinYear_def YearFromTime_def)

lemma MonthFromTime_range: "0 \<le> MonthFromTime t \<and> MonthFromTime t \<le> 11"
  by (simp add: MonthFromTime_def Let_def)

lemma DateFromTime_monthStart:
  "DateFromTime t = DayWithinYear t - monthStart (YearFromTime t) (MonthFromTime t) + 1"
proof -
  define m where "m = MonthFromTime t"
  have "m = 0 \<or> m = 1 \<or> m = 2 \<or> m = 3 \<or> m = 4 \<or> m = 5 \<or> m = 6 \<or> m = 7 \<or> m = 8 \<or>
        m = 9 \<or> m = 10 \<or> m = 11"
    using MonthFromTime_range [of t] unfolding m_def by arith
  then show ?thesis
    unfolding DateFromTime_def monthStart_def InLeapYear_def Let_def m_def [symmetric]
    by auto
qed

lemma MakeDay_of_time:
  "MakeDay (YearFromTime t) (MonthFromTime t) (DateFromTime t) = Day t"
proof -
  have "MonthFromTime t div 12 = 0" "MonthFromTime t mod 12 = MonthFromTime t"
    using MonthFromTime_range [of t] by simp_all
  then show ?thesis
    by (simp add: MakeDay_def Let_def DateFromTime_monthStart DayWithinYear_def)
qed

lemma MakeDay_date_shift: "MakeDay y m (dt + k) = MakeDay y m dt + k"
  by (simp add: MakeDay_def Let_def)

lemma next_local_day:
  "MakeDate (MakeDay (YearFromTime lt) (MonthFromTime lt) (DateFromTime lt + 1)) (TimeWithinDay lt)
     = lt + msPerDay"
proof -
  have "MakeDay (YearFromTime lt) (MonthFromTime lt) (DateFromTime lt + 1) = Day lt + 1"
    by (simp only: MakeDay_date_shift MakeDay_of_time)
  then show ?thesis
    by (simp add: MakeDate_def Day_def TimeWithinDay_def algebra_simps)
qed

lemma setDate_next_day_cases:
  "setDate h t (getDate h t + 1) = t + msPerDay - msPerHour \<or>
   setDate h t (getDate h t + 1) = t + msPerDay \<or>
   setDate h t (getDate h t + 1) = t + msPerDay + msPerHour"
  by (simp add: setDate_def getDate_def Let_def next_local_day UTC_def LocalTime_def LocalTZA_def)

lemma setDate_next_day_later: "t < setDate h t (getDate h t + 1)"
  using setDate_next_day_cases [of h t] by (auto simp: msPerDay_def msPerHour_def)

subsection \<open>generateDateRange\<close>

text \<open>
  The \<^verbatim>\<open>while\<close> loop, with \<^verbatim>\<open>currentDate\<close> and \<^verbatim>\<open>dates\<close> as the state. A comparison with an
  invalid date is false, so the loop is not entered and the result is empty.
\<close>

function gdr_loop :: "host \<Rightarrow> int \<Rightarrow> int \<Rightarrow> string list \<Rightarrow> string list" where
  "gdr_loop h currentDate fin dates =
     (if currentDate \<le> fin then
        gdr_loop h (setDate h currentDate (getDate h currentDate + 1)) fin
          (dates @ [hd (split_on CHR ''T'' (toISOString currentDate))])
      else dates)"
  by pat_completeness auto
termination
proof (relation "measure (\<lambda>(h, currentDate, fin, dates). nat (fin + 1 - currentDate))")
  show "wf (measure (\<lambda>(h, currentDate, fin, dates). nat (fin + 1 - currentDate)))"
    by simp
next
  fix h :: host and currentDate fin :: int and dates :: "string list"
  assume "currentDate \<le> fin"
  then show "((h, setDate h currentDate (getDate h currentDate + 1), fin,
               dates @ [hd (split_on CHR ''T'' (toISOString currentDate))]),
              (h, currentDate, fin, dates))
             \<in> measure (\<lambda>(h, currentDate, fin, dates). nat (fin + 1 - currentDate))"
    using setDate_next_day_later [of currentDate h] by simp
qed

declare gdr_loop.simps [simp del]

definition generateDateRange :: "host \<Rightarrow> string \<Rightarrow> string \<Rightarrow> string list" where
  "generateDateRange h startDate endDate =
     (case Date_parse startDate of
        None \<Rightarrow> []
      | Some currentDate \<Rightarrow>
          (case Date_parse endDate of
             None \<Rightarrow> []
           | Some fin \<Rightarrow> gdr_loop h currentDate fin []))"

subsection \<open>formatDate\<close>

datatype failure = TypeError | IllTyped

text \<open>
  \<^verbatim>\<open>const [month, day, year] = dateString.split('/')\<close> binds a missing component to
  \<^verbatim>\<open>undefined\<close>. The template prints an undefined \<^verbatim>\<open>year\<close> as the text \<^verbatim>\<open>undefined\<close>;
  \<^verbatim>\<open>day.padStart\<close> on an undefined \<^verbatim>\<open>day\<close> throws a TypeError. Components after the third
  are dropped.
\<close>

fun formatDate_parts :: "string list \<Rightarrow> failure + string" where
  "formatDate_parts [] = Inl TypeError"
| "formatDate_parts [month] = Inl TypeError"
| "formatDate_parts [month, day] =
     Inr (''undefined'' @ ''-'' @ padStart month 2 ''0'' @ ''-'' @ padStart day 2 ''0'')"
| "formatDate_parts (month # day # year # rest) =
     Inr (year @ ''-'' @ padStart month 2 ''0'' @ ''-'' @ padStart day 2 ''0'')"

definition formatDate :: "string \<Rightarrow> failure + string" where
  "formatDate dateString = formatDate_parts (split_on CHR ''/'' dateString)"

subsection \<open>calculateSimpleMovingAverage\<close>

text \<open>
  The \<^verbatim>\<open>for\<close> loop over \<^verbatim>\<open>i\<close>, with \<^verbatim>\<open>movingAverage\<close> as the accumulator; \<^verbatim>\<open>reduce\<close> is a left
  fold from 0.
\<close>

function sma_loop :: "rat list \<Rightarrow> nat \<Rightarrow> rat list \<Rightarrow> rat list" where
  "sma_loop data i movingAverage =
     (if i < length data then
        (if i < 13 then sma_loop data (i + 1) (movingAverage @ [data ! i])
         else
           (let sl = slice data (int i - 13) (int i + 1);
                sum = foldl (\<lambda>acc val. acc + val) 0 sl
            in sma_loop data (i + 1) (movingAverage @ [sum / of_nat (length sl)])))
      else movingAverage)"
  by pat_completeness auto
termination
  by (relation "measure (\<lambda>(data, i, movingAverage). length data - i)") auto

declare sma_loop.simps [simp del]

definition calculateSimpleMovingAverage :: "rat list \<Rightarrow> rat list" where
  "calculateSimpleMovingAverage data = sma_loop data 0 []"

subsection \<open>The data-fetching callback: lookup, totals, ranking, densification, smoothing\<close>

record DataItem =
  name :: string
  confirmation_date :: string
  "value" :: rat

text \<open>
  A property of a \<^verbatim>\<open>ChartDataPoint\<close> holds a string (the date) or a number. \<^verbatim>\<open>point[uc] = v\<close>
  replaces the value of an existing property in place and appends a new one
  (\<^const>\<open>AList.update\<close>); \<^verbatim>\<open>point[uc]\<close> reads it (\<^const>\<open>map_of\<close>). A series named \<^verbatim>\<open>date\<close>
  therefore overwrites the date of its row, as in the source.

  One key is not a data property: \<^verbatim>\<open>__proto__\<close> is an accessor that every object literal inherits.
  Assigning a number to it is ignored by its setter, so no property is created, and reading
  it yields the prototype object, which is not a number. The rows of the source start as the
  object literal \<^verbatim>\<open>{ date }\<close> and change by \<^verbatim>\<open>point[uc] = v\<close> only, so none of them ever owns a
  property of that name.
\<close>

datatype cell = Str string | Num rat

type_synonym ChartDataPoint = "(string \<times> cell) list"

definition obj_set :: "ChartDataPoint \<Rightarrow> string \<Rightarrow> cell \<Rightarrow> ChartDataPoint" where
  "obj_set point key v = (if key = ''__proto__'' then point else AList.update key v point)"

record ProcessedData =
  chartData :: "ChartDataPoint list"
  uniqueUCs :: "string list"

text \<open>
  \<^verbatim>\<open>[...new Set(jsonData.map(item => item.name))]\<close>: a \<^verbatim>\<open>Set\<close> keeps its elements in the order
  of their first insertion.
\<close>

definition Set_add :: "'a list \<Rightarrow> 'a \<Rightarrow> 'a list" where
  "Set_add s x = (if x \<in> set s then s else s @ [x])"

definition new_Set :: "'a list \<Rightarrow> 'a list" where
  "new_Set xs = foldl Set_add [] xs"

definition discoveredUCs :: "DataItem list \<Rightarrow> string list" where
  "discoveredUCs jsonData = new_Set (map name jsonData)"

text \<open>
  The \<^verbatim>\<open>jsonData.forEach\<close> that fills \<^verbatim>\<open>dataLookup\<close>: \<^verbatim>\<open>Map.set\<close> overwrites, and a TypeError
  of \<^verbatim>\<open>formatDate\<close> leaves the loop (and the callback).
\<close>

definition lookupKey :: "string \<Rightarrow> string \<Rightarrow> string" where
  "lookupKey uc date = uc @ ''-'' @ date"

fun dataLookup_fill :: "DataItem list \<Rightarrow> (string \<rightharpoonup> rat) \<Rightarrow> failure + (string \<rightharpoonup> rat)" where
  "dataLookup_fill [] dataLookup = Inr dataLookup"
| "dataLookup_fill (item # items) dataLookup =
     (case formatDate (confirmation_date item) of
        Inl e \<Rightarrow> Inl e
      | Inr formattedDate \<Rightarrow>
          dataLookup_fill items (dataLookup(lookupKey (name item) formattedDate \<mapsto> value item)))"

definition dataLookup_of :: "DataItem list \<Rightarrow> failure + (string \<rightharpoonup> rat)" where
  "dataLookup_of jsonData = dataLookup_fill jsonData Map.empty"

text \<open>\<^verbatim>\<open>dataLookup.get(key) || 0\<close>: an absent key and the falsy number 0 both give 0.\<close>

definition get_or_0 :: "(string \<rightharpoonup> rat) \<Rightarrow> string \<Rightarrow> rat" where
  "get_or_0 dataLookup key =
     (case dataLookup key of None \<Rightarrow> 0 | Some v \<Rightarrow> (if v = 0 then 0 else v))"

text \<open>\<^verbatim>\<open>ucTotals\<close>: the pair is the object \<^verbatim>\<open>{name, total}\<close>.\<close>

definition ucTotals :: "(string \<rightharpoonup> rat) \<Rightarrow> string list \<Rightarrow> string list \<Rightarrow> (string \<times> rat) list" where
  "ucTotals dataLookup dateRange ucs =
     map (\<lambda>uc. (uc, foldl (\<lambda>sum date. sum + get_or_0 dataLookup (lookupKey uc date)) 0 dateRange))
       ucs"

text \<open>
  \<^verbatim>\<open>.sort((a, b) => b.total - a.total)\<close> is stable (ECMAScript 2019): the sort by the key
  \<^verbatim>\<open>- total\<close> that keeps equal keys in their order. Then \<^verbatim>\<open>.slice(0, topN).map(uc => uc.name)\<close>.
\<close>

definition topUCs :: "(string \<times> rat) list \<Rightarrow> int \<Rightarrow> string list" where
  "topUCs totals topN = map fst (slice (sort_key (\<lambda>uc. - snd uc) totals) 0 topN)"

definition dataPoint_of :: "(string \<rightharpoonup> rat) \<Rightarrow> string list \<Rightarrow> string \<Rightarrow> ChartDataPoint" where
  "dataPoint_of dataLookup tops date =
     foldl (\<lambda>dataPoint uc. obj_set dataPoint uc (Num (get_or_0 dataLookup (lookupKey uc date))))
       [(''date'', Str date)] tops"

definition formattedData :: "(string \<rightharpoonup> rat) \<Rightarrow> string list \<Rightarrow> string list \<Rightarrow> ChartDataPoint list" where
  "formattedData dataLookup dateRange tops = map (dataPoint_of dataLookup tops) dateRange"

text \<open>
  The smoothing loop mutates the rows of \<^verbatim>\<open>formattedData\<close> in place, one series after the
  other; the matrix is passed from one iteration to the next. \<^verbatim>\<open>point[uc] as number\<close> is an
  unchecked cast: \<open>number_at\<close> is \<^const>\<open>None\<close> where the value read is not a number (the property
  is absent or holds a string, or the key is \<^verbatim>\<open>__proto__\<close>).

  Where a value of the column is not a number, the arithmetic of the source leaves the
  numbers of the model. For the key \<^verbatim>\<open>__proto__\<close> the outcome is known all the same: whatever the
  moving average holds, each write \<^verbatim>\<open>point[uc] = movingAverage[index]\<close> is ignored (a number) or
  sets the prototype to what it is (the object read), so the matrix is left as it is. For
  any other key the model stops (\<^const>\<open>None\<close>, and \<^const>\<open>IllTyped\<close> in the result of the callback,
  which never occurs there).
\<close>

fun as_number :: "cell option \<Rightarrow> rat option" where
  "as_number (Some (Num v)) = Some v"
| "as_number (Some (Str s)) = None"
| "as_number None = None"

definition number_at :: "ChartDataPoint \<Rightarrow> string \<Rightarrow> rat option" where
  "number_at point key = (if key = ''__proto__'' then None else as_number (map_of point key))"

definition ucData_of :: "ChartDataPoint list \<Rightarrow> string \<Rightarrow> rat list option" where
  "ucData_of points uc = those (map (\<lambda>point. number_at point uc) points)"

definition smooth_uc :: "ChartDataPoint list \<Rightarrow> string \<Rightarrow> ChartDataPoint list option" where
  "smooth_uc points uc =
     (case ucData_of points uc of
        None \<Rightarrow> (if uc = ''__proto__'' then Some points else None)
      | Some ucData \<Rightarrow>
          (let movingAverage = calculateSimpleMovingAverage ucData
           in Some (map (\<lambda>(index, point). obj_set point uc (Num (movingAverage ! index)))
                      (enumerate 0 points))))"

fun smooth :: "ChartDataPoint list \<Rightarrow> string list \<Rightarrow> ChartDataPoint list option" where
  "smooth points [] = Some points"
| "smooth points (uc # ucs) =
     (case smooth_uc points uc of None \<Rightarrow> None | Some points' \<Rightarrow> smooth points' ucs)"

text \<open>
  The callback from \<^verbatim>\<open>uniqueUCs\<close> to \<^verbatim>\<open>setData\<close>, with the date axis \<^verbatim>\<open>dateRange\<close> and \<^verbatim>\<open>topN\<close>
  as parameters. \<^const>\<open>Inl\<close> is the rejection that \<^verbatim>\<open>.catch\<close> receives: \<^verbatim>\<open>setData\<close> is not called.
\<close>

definition processData :: "DataItem list \<Rightarrow> string list \<Rightarrow> int \<Rightarrow> failure + ProcessedData" where
  "processData jsonData dateRange topN =
     (let ucs = discoveredUCs jsonData in
      case dataLookup_of jsonData of
        Inl e \<Rightarrow> Inl e
      | Inr dataLookup \<Rightarrow>
          (let tops = topUCs (ucTotals dataLookup dateRange ucs) topN;
               points = formattedData dataLookup dateRange tops
           in case smooth points tops of
                None \<Rightarrow> Inl IllTyped
              | Some smoothed \<Rightarrow> Inr \<lparr>chartData = smoothed, uniqueUCs = tops\<rparr>))"

text \<open>
  The callback as the source runs it: the axis starts at the fixed date and ends today
  (\<open>today\<close> stands for \<^verbatim>\<open>new Date().toISOString().split('T')[0]\<close>).
\<close>

definition loadData :: "host \<Rightarrow> string \<Rightarrow> DataItem list \<Rightarrow> int \<Rightarrow> failure + ProcessedData" where
  "loadData h today jsonData topN =
     (let startDate = ''2024-07-01'';
          endDate = today;
          dateRange = generateDateRange h startDate endDate
      in processData jsonData dateRange topN)"

section \<open>Notions of the specification\<close>

text \<open>A numeric component of a raw date: a non-empty string of decimal digits.\<close>

definition numeric :: "string \<Rightarrow> bool" where
  "numeric s = (s \<noteq> [] \<and> (\<forall>c \<in> set s. c \<in> set ''0123456789''))"

text \<open>
  The total of a series: the sum over every date of the axis of the value looked up for
  the series and the date, a missing entry counting as 0.
\<close>

definition series_total :: "(string \<rightharpoonup> rat) \<Rightarrow> string list \<Rightarrow> string \<Rightarrow> rat" where
  "series_total dataLookup axis uc =
     (\<Sum>date \<leftarrow> axis. case dataLookup (lookupKey uc date) of None \<Rightarrow> 0 | Some v \<Rightarrow> v)"

text \<open>The column of a matrix for a key: the property of each row, in row order.\<close>

definition column :: "ChartDataPoint list \<Rightarrow> string \<Rightarrow> cell option list" where
  "column points k = map (\<lambda>point. map_of point k) points"

text \<open>A host without daylight-saving transitions: its offset from UTC never changes.\<close>

definition steady :: "host \<Rightarrow> bool" where
  "steady h = (\<forall>t t'. daylight h t = daylight h t')"

text \<open>
  Calendar dates as (year, month, day) with months and days counted from 1. A proper date
  exists in the Gregorian calendar; a valid date also has a four-digit year, and its
  canonical form is \<^verbatim>\<open>YYYY-MM-DD\<close>. \<open>next_day\<close> is the following calendar day (end of month, end
  of year and leap years included), \<open>day_number\<close> counts the days from the first day of year
  0, and \<open>date_less\<close> is the chronological order.
\<close>

type_synonym calendar_date = "nat \<times> nat \<times> nat"

definition proper_date :: "calendar_date \<Rightarrow> bool" where
  "proper_date c = (case c of (y, m, d) \<Rightarrow> 1 \<le> m \<and> m \<le> 12 \<and> 1 \<le> d \<and> d \<le> days_in_month y m)"

definition valid_date :: "calendar_date \<Rightarrow> bool" where
  "valid_date c = (proper_date c \<and> fst c \<le> 9999)"

definition canonical :: "calendar_date \<Rightarrow> string" where
  "canonical c = (case c of (y, m, d) \<Rightarrow> decimal 4 y @ ''-'' @ decimal 2 m @ ''-'' @ decimal 2 d)"

fun next_day :: "calendar_date \<Rightarrow> calendar_date" where
  "next_day (y, m, d) =
     (if d < days_in_month y m then (y, m, d + 1)
      else if m < 12 then (y, m + 1, 1)
      else (y + 1, 1, 1))"

definition day_number :: "calendar_date \<Rightarrow> nat" where
  "day_number c =
     (case c of (y, m, d) \<Rightarrow>
        (\<Sum>y' < y. if leap_year y' then 366 else 365) + (\<Sum>m' = 1..<m. days_in_month y m') + d)"

fun date_less :: "calendar_date \<Rightarrow> calendar_date \<Rightarrow> bool" where
  "date_less (y, m, d) (y', m', d') = (y < y' \<or> (y = y' \<and> (m < m' \<or> (m = m' \<and> d < d'))))"

definition date_le :: "calendar_date \<Rightarrow> calendar_date \<Rightarrow> bool" where
  "date_le c c' = (c = c' \<or> date_less c c')"

definition day_index :: "calendar_date \<Rightarrow> int" where
  "day_index c = (case c of (y, m, d) \<Rightarrow> MakeDay (int y) (int m - 1) (int d))"

section \<open>Properties\<close>

subsection \<open>generateDateRange\<close>

lemma DaysInYear_leap: "DaysInYear (int y) = (if leap_year y then 366 else 365)"
proof -
  have "int y mod 4 = int (y mod 4)" "int y mod 100 = int (y mod 100)"
    "int y mod 400 = int (y mod 400)"
    by (simp_all add: zmod_int)
  moreover have "y mod 100 = 0 \<Longrightarrow> y mod 4 = 0"
    by (rule mod_0_coarser [of y 100 4]) simp_all
  moreover have "y mod 400 = 0 \<Longrightarrow> y mod 100 = 0"
    by (rule mod_0_coarser [of y 400 100]) simp_all
  ultimately show ?thesis
    by (auto simp: DaysInYear_def leap_year_def)
qed

lemma month_cases:
  "1 \<le> m \<Longrightarrow> m \<le> 12 \<Longrightarrow>
   m = 1 \<or> m = 2 \<or> m = 3 \<or> m = 4 \<or> m = 5 \<or> m = 6 \<or> m = 7 \<or> m = 8 \<or> m = 9 \<or> m = 10 \<or>
   m = 11 \<or> m = (12::nat)"
  by arith

lemma day_index_eq:
  assumes "proper_date (y, m, d)"
  shows "day_index (y, m, d) = DayFromYear (int y) + monthStart (int y) (int m - 1) + int d - 1"
proof -
  have "0 \<le> int m - 1" "int m - 1 < 12"
    using assms by (simp_all add: proper_date_def)
  then have "(int m - 1) div 12 = 0" "(int m - 1) mod 12 = int m - 1"
    by simp_all
  then show ?thesis
    by (simp add: day_index_def MakeDay_def Let_def)
qed

lemma within_year:
  assumes "proper_date (y, m, d)"
  shows "0 \<le> monthStart (int y) (int m - 1) + int d - 1 \<and>
         monthStart (int y) (int m - 1) + int d - 1 < DaysInYear (int y)"
proof -
  have m: "m = 1 \<or> m = 2 \<or> m = 3 \<or> m = 4 \<or> m = 5 \<or> m = 6 \<or> m = 7 \<or> m = 8 \<or> m = 9 \<or>
        m = 10 \<or> m = 11 \<or> m = 12"
    using assms by (intro month_cases) (simp_all add: proper_date_def)
  have d: "1 \<le> d" "d \<le> days_in_month y m"
    using assms by (simp_all add: proper_date_def)
  show ?thesis
    using m d
    by (elim disjE) (simp_all add: monthStart_def days_in_month_def DaysInYear_leap split: if_splits)
qed

lemma time_fields:
  assumes c: "proper_date (y, m, d)" and ms: "0 \<le> ms" "ms < msPerDay"
  defines "t \<equiv> MakeDate (day_index (y, m, d)) ms"
  shows "Day t = day_index (y, m, d)" and "TimeWithinDay t = ms"
    and "YearFromTime t = int y" and "MonthFromTime t = int m - 1" and "DateFromTime t = int d"
proof -
  define w where "w = monthStart (int y) (int m - 1) + int d - 1"
  have w: "0 \<le> w" "w < DaysInYear (int y)"
    using within_year [OF c] by (simp_all add: w_def)
  have idx: "day_index (y, m, d) = DayFromYear (int y) + w"
    using day_index_eq [OF c] by (simp add: w_def)
  show day: "Day t = day_index (y, m, d)"
    using ms by (simp add: t_def Day_def MakeDate_def div_pos_pos_trivial)
  show "TimeWithinDay t = ms"
    using ms by (simp add: t_def TimeWithinDay_def MakeDate_def)
  show year: "YearFromTime t = int y"
    unfolding YearFromTime_def day idx
    using w by (intro YearFromDay_eq) (simp_all add: DayFromYear_Suc)
  have dwy: "DayWithinYear t = w"
    by (simp add: DayWithinYear_def year day idx)
  have leap: "InLeapYear t = (if leap_year y then 1 else 0)"
    by (simp add: InLeapYear_def year DaysInYear_leap)
  have m: "m = 1 \<or> m = 2 \<or> m = 3 \<or> m = 4 \<or> m = 5 \<or> m = 6 \<or> m = 7 \<or> m = 8 \<or> m = 9 \<or>
        m = 10 \<or> m = 11 \<or> m = 12"
    using c by (intro month_cases) (simp_all add: proper_date_def)
  have d: "1 \<le> d" "d \<le> days_in_month y m"
    using c by (simp_all add: proper_date_def)
  show month: "MonthFromTime t = int m - 1"
    unfolding MonthFromTime_def dwy leap Let_def w_def
    using m d
    by (elim disjE) (simp_all add: monthStart_def days_in_month_def DaysInYear_leap split: if_splits)
  show "DateFromTime t = int d"
    by (simp add: DateFromTime_monthStart dwy year month w_def)
qed

lemma length_decimal: "length (decimal w n) = w"
  by (induction w arbitrary: n) simp_all

lemma digit_char_in: "digit_char n \<in> set ''0123456789''"
proof -
  have "n mod 10 < 10" by simp
  then have "n mod 10 = 0 \<or> n mod 10 = 1 \<or> n mod 10 = 2 \<or> n mod 10 = 3 \<or> n mod 10 = 4 \<or>
      n mod 10 = 5 \<or> n mod 10 = 6 \<or> n mod 10 = 7 \<or> n mod 10 = 8 \<or> n mod 10 = 9"
    by arith
  then show ?thesis
    unfolding digit_char_def by (elim disjE) simp_all
qed

lemma digit_val_digit_char: "digit_val (digit_char n) = Some (n mod 10)"
proof -
  have "n mod 10 < 10" by simp
  then have "n mod 10 = 0 \<or> n mod 10 = 1 \<or> n mod 10 = 2 \<or> n mod 10 = 3 \<or> n mod 10 = 4 \<or>
      n mod 10 = 5 \<or> n mod 10 = 6 \<or> n mod 10 = 7 \<or> n mod 10 = 8 \<or> n mod 10 = 9"
    by arith
  then show ?thesis
    unfolding digit_char_def digit_val_def by (elim disjE) simp_all
qed

lemma set_decimal: "set (decimal w n) \<subseteq> set ''0123456789''"
proof (induction w arbitrary: n)
  case 0
  then show ?case by simp
next
  case (Suc w)
  have "set (decimal (Suc w) n) = set (decimal w (n div 10)) \<union> {digit_char n}"
    by simp
  then show ?case
    using Suc [of "n div 10"] digit_char_in [of n] by blast
qed

lemma read_decimal_append:
  "read_decimal acc (xs @ [c]) =
     (case read_decimal acc xs of
        None \<Rightarrow> None
      | Some a \<Rightarrow> (case digit_val c of None \<Rightarrow> None | Some v \<Rightarrow> Some (10 * a + v)))"
  by (induction xs arbitrary: acc) (simp_all split: option.splits)

lemma read_decimal_decimal: "read_decimal 0 (decimal w n) = Some (n mod 10 ^ w)"
proof (induction w arbitrary: n)
  case 0
  then show ?case by simp
next
  case (Suc w)
  have "10 * (n div 10 mod 10 ^ w) + n mod 10 = n mod (10 * 10 ^ w)"
    by (simp add: mod_mult2_eq add.commute)
  then show ?case
    by (simp add: read_decimal_append Suc digit_val_digit_char)
qed

lemma split_on_no_sep: "c \<notin> set a \<Longrightarrow> split_on c a = [a]"
  by (induction a) auto

lemma split_on_sep: "c \<notin> set a \<Longrightarrow> split_on c (a @ c # rest) = a # split_on c rest"
  by (induction a) auto

lemma canonical_no_T: "CHR ''T'' \<notin> set (canonical c)"
proof -
  obtain y m d where c: "c = (y, m, d)"
    by (cases c) auto
  have "CHR ''T'' \<notin> set (decimal w n)" for w n
    using set_decimal [of w n] by auto
  then show ?thesis
    by (simp add: c canonical_def)
qed

lemma days_in_month_le: "days_in_month y m \<le> 31"
  by (simp add: days_in_month_def)

lemma Date_parse_canonical:
  assumes "valid_date c"
  shows "Date_parse (canonical c) = Some (MakeDate (day_index c) 0)"
proof -
  obtain y m d where c: "c = (y, m, d)"
    by (cases c) auto
  have b: "y \<le> 9999" "1 \<le> m" "m \<le> 12" "1 \<le> d" "d \<le> days_in_month y m"
    using assms by (simp_all add: c valid_date_def proper_date_def)
  have d31: "d \<le> 31"
    using b(5) days_in_month_le [of y m] by simp
  define s where "s = canonical c"
  have s: "s = decimal 4 y @ CHR ''-'' # decimal 2 m @ CHR ''-'' # decimal 2 d"
    by (simp add: s_def c canonical_def)
  have "length s = 10"
    by (simp add: s length_decimal)
  moreover have "s ! 4 = CHR ''-''"
    by (simp add: s nth_append length_decimal)
  moreover have "s ! 7 = CHR ''-''"
    by (simp add: s nth_append length_decimal nth_Cons')
  moreover have "take 4 s = decimal 4 y"
    by (simp add: s length_decimal)
  moreover have "take 2 (drop 5 s) = decimal 2 m"
    by (simp add: s length_decimal)
  moreover have "drop 8 s = decimal 2 d"
    by (simp add: s length_decimal)
  moreover have "y mod 10 ^ 4 = y" "m mod 10 ^ 2 = m" "d mod 10 ^ 2 = d"
    using b d31 by simp_all
  ultimately show ?thesis
    unfolding s_def [symmetric] Date_parse_def
    using b by (simp add: read_decimal_decimal c day_index_def)
qed

lemma toISOString_canonical:
  assumes "valid_date c"
  shows "toISOString (MakeDate (day_index c) 0) = canonical c @ ''T00:00:00.000Z''"
proof -
  obtain y m d where c: "c = (y, m, d)"
    by (cases c) auto
  have p: "proper_date (y, m, d)" and y: "y \<le> 9999"
    using assms by (simp_all add: c valid_date_def)
  have z: "decimal 2 0 = ''00''" "decimal 3 0 = ''000''"
    by (simp_all add: digit_char_def numeral_2_eq_2 numeral_3_eq_3)
  note f = time_fields [OF p, of 0, simplified msPerDay_pos, simplified]
  show ?thesis
    unfolding toISOString_def Let_def
    using y by (simp add: f c canonical_def year_text_def z nat_diff_distrib)
qed

lemma iso_date_canonical:
  assumes "valid_date c"
  shows "hd (split_on CHR ''T'' (toISOString (MakeDate (day_index c) 0))) = canonical c"
  using canonical_no_T [of c] by (simp add: toISOString_canonical [OF assms] split_on_sep)

lemma setDate_next_day_steady:
  assumes "steady h"
  shows "setDate h t (getDate h t + 1) = t + msPerDay"
proof -
  show ?thesis
  proof (cases "daylight h t")
    case True
    then have "daylight h u" for u
      using assms by (auto simp: steady_def)
    then show ?thesis
      by (simp add: setDate_def getDate_def Let_def next_local_day UTC_def LocalTime_def
          LocalTZA_def)
  next
    case False
    then have "\<not> daylight h u" for u
      using assms by (auto simp: steady_def)
    then show ?thesis
      by (simp add: setDate_def getDate_def Let_def next_local_day UTC_def LocalTime_def
          LocalTZA_def)
  qed
qed

lemma gdr_loop_done: "fin < currentDate \<Longrightarrow> gdr_loop h currentDate fin acc = acc"
  by (subst gdr_loop.simps) simp

lemma gdr_loop_single:
  "gdr_loop h t t acc = acc @ [hd (split_on CHR ''T'' (toISOString t))]"
  using setDate_next_day_later [of t h] by (subst gdr_loop.simps) (simp add: gdr_loop_done)

lemma gdr_loop_days:
  assumes "steady h"
  shows "gdr_loop h (msPerDay * a) (msPerDay * b) acc =
     acc @ map (\<lambda>k. hd (split_on CHR ''T'' (toISOString (msPerDay * (a + int k)))))
             [0..<nat (b - a + 1)]"
proof (induction "nat (b - a + 1)" arbitrary: a acc)
  case 0
  then have "\<not> msPerDay * a \<le> msPerDay * b"
    using msPerDay_pos by simp
  then show ?case
    using 0 by (subst gdr_loop.simps) simp
next
  case (Suc n)
  then have le: "msPerDay * a \<le> msPerDay * b"
    using msPerDay_pos by simp
  have n: "n = nat (b - (a + 1) + 1)"
    using Suc(2) by simp
  have n': "nat (b - a) = n"
    using Suc(2) by simp
  have step: "msPerDay * a + msPerDay = msPerDay * (a + 1)"
    by (simp add: algebra_simps)
  have "[0..<Suc n] = 0 # map Suc [0..<n]"
    by (simp add: upt_conv_Cons map_Suc_upt del: upt_Suc)
  then show ?case
    using le Suc(1) [OF n]
    by (subst gdr_loop.simps)
      (simp add: setDate_next_day_steady [OF assms] step Suc(2) [symmetric] n' comp_def add.assoc
        del: upt_Suc)
qed

lemma monthStart_step:
  assumes "1 \<le> m" "m < 12"
  shows "monthStart (int y) (int m) = monthStart (int y) (int m - 1) + int (days_in_month y m)"
proof -
  have "m = 1 \<or> m = 2 \<or> m = 3 \<or> m = 4 \<or> m = 5 \<or> m = 6 \<or> m = 7 \<or> m = 8 \<or> m = 9 \<or>
        m = 10 \<or> m = 11"
    using assms by arith
  then show ?thesis
    by (elim disjE) (simp_all add: monthStart_def days_in_month_def DaysInYear_leap)
qed

lemma next_day_proper:
  assumes "proper_date c"
  shows "proper_date (next_day c)"
proof -
  obtain y m d where c: "c = (y, m, d)"
    by (cases c) auto
  have "1 \<le> days_in_month y' m'" for y' m'
    by (simp add: days_in_month_def)
  then show ?thesis
    using assms by (auto simp: c proper_date_def)
qed

lemma next_day_index:
  assumes "proper_date c"
  shows "day_index (next_day c) = day_index c + 1"
proof -
  obtain y m d where c: "c = (y, m, d)"
    by (cases c) auto
  have p: "proper_date (y, m, d)"
    using assms by (simp add: c)
  have b: "1 \<le> m" "m \<le> 12" "1 \<le> d" "d \<le> days_in_month y m"
    using p by (simp_all add: proper_date_def)
  have p': "proper_date (next_day (y, m, d))"
    using next_day_proper [OF p] .
  consider "d < days_in_month y m" | "d = days_in_month y m" "m < 12"
    | "d = days_in_month y m" "m = 12"
    using b by linarith
  then show ?thesis
  proof cases
    case 1
    then have "proper_date (y, m, d + 1)"
      using p' by simp
    then show ?thesis
      using 1 p by (simp add: c day_index_eq)
  next
    case 2
    then have "proper_date (y, m + 1, 1)"
      using p' by simp
    then show ?thesis
      using 2 p monthStart_step [OF b(1) 2(2), of y]
      by (simp add: c day_index_eq)
  next
    case 3
    then have "proper_date (y + 1, 1, 1)"
      using p' by simp
    moreover have "d = 31"
      using 3 by (simp add: days_in_month_def)
    ultimately show ?thesis
      using 3 p DayFromYear_Suc [of "int y"]
      by (simp add: c day_index_eq monthStart_def DaysInYear_leap add.commute)
  qed
qed

lemma funpow_next_day:
  assumes "proper_date c"
  shows "proper_date ((next_day ^^ k) c) \<and> day_index ((next_day ^^ k) c) = day_index c + int k"
  by (induction k) (use assms in \<open>simp_all add: next_day_proper next_day_index\<close>)

lemma day_index_inj:
  assumes "proper_date a" "proper_date b" "day_index a = day_index b"
  shows "a = b"
proof -
  obtain y m d where a: "a = (y, m, d)"
    by (cases a) auto
  obtain y' m' d' where b: "b = (y', m', d')"
    by (cases b) auto
  note fa = time_fields [OF assms(1) [unfolded a], of 0, simplified msPerDay_pos, simplified]
  note fb = time_fields [OF assms(2) [unfolded b], of 0, simplified msPerDay_pos, simplified]
  have e: "day_index (y, m, d) = day_index (y', m', d')"
    using assms(3) by (simp add: a b)
  have "int y = int y'" "int m - 1 = int m' - 1" "int d = int d'"
    using fa(3-5) fb(3-5) unfolding e by simp_all
  then show ?thesis
    by (simp add: a b)
qed

lemma year_le_of_index:
  assumes "proper_date a" "proper_date b" "day_index a \<le> day_index b"
  shows "fst a \<le> fst b"
proof (rule ccontr)
  assume "\<not> fst a \<le> fst b"
  obtain y m d where a: "a = (y, m, d)"
    by (cases a) auto
  obtain y' m' d' where b: "b = (y', m', d')"
    by (cases b) auto
  have "int y' + 1 \<le> int y"
    using \<open>\<not> fst a \<le> fst b\<close> by (simp add: a b)
  then have "DayFromYear (int y' + 1) \<le> DayFromYear (int y)"
    using DayFromYear_mono [of "int y' + 1" "int y"] by simp
  moreover have "day_index b < DayFromYear (int y' + 1)"
    using within_year [OF assms(2) [unfolded b]] day_index_eq [OF assms(2) [unfolded b]]
    by (simp add: b DayFromYear_Suc)
  moreover have "DayFromYear (int y) \<le> day_index a"
    using within_year [OF assms(1) [unfolded a]] day_index_eq [OF assms(1) [unfolded a]]
    by (simp add: a)
  ultimately show False
    using assms(3) by simp
qed

lemma DayFromYear_sum:
  "DayFromYear (int y) = DayFromYear 0 + int (\<Sum>y' < y. if leap_year y' then 366 else 365)"
proof (induction y)
  case 0
  then show ?case by simp
next
  case (Suc y)
  have "DayFromYear (int (Suc y)) = DayFromYear (int y) + DaysInYear (int y)"
    using DayFromYear_Suc [of "int y"] by (simp add: add.commute)
  then show ?case
    using Suc by (simp add: DaysInYear_leap)
qed

lemma monthStart_sum:
  "1 \<le> m \<Longrightarrow> m \<le> 12 \<Longrightarrow>
   monthStart (int y) (int m - 1) = int (\<Sum>m' = 1..<m. days_in_month y m')"
proof (induction m)
  case 0
  then show ?case by simp
next
  case (Suc k)
  show ?case
  proof (cases "k = 0")
    case True
    then show ?thesis
      by (simp add: monthStart_def)
  next
    case False
    then have k: "1 \<le> k" "k < 12" "k \<le> 12"
      using Suc.prems by simp_all
    have "monthStart (int y) (int k) = monthStart (int y) (int k - 1) + int (days_in_month y k)"
      using monthStart_step [OF k(1,2)] .
    then show ?thesis
      using Suc.IH [OF k(1,3)] k(1) by simp
  qed
qed

lemma day_index_number:
  assumes "proper_date c"
  shows "day_index c = DayFromYear 0 + int (day_number c) - 1"
proof -
  obtain y m d where c: "c = (y, m, d)"
    by (cases c) auto
  have m: "1 \<le> m" "m \<le> 12"
    using assms by (simp_all add: c proper_date_def)
  show ?thesis
    using day_index_eq [OF assms [unfolded c]] DayFromYear_sum [of y] monthStart_sum [OF m, of y]
    by (simp add: c day_number_def)
qed

lemma day_number_pos:
  assumes "proper_date c"
  shows "1 \<le> day_number c"
proof -
  obtain y m d where c: "c = (y, m, d)"
    by (cases c) auto
  show ?thesis
    using assms by (simp add: c day_number_def proper_date_def)
qed

lemma date_less_index:
  assumes "proper_date a" "proper_date b" "date_less a b"
  shows "day_index a < day_index b"
proof -
  obtain y m d where a: "a = (y, m, d)"
    by (cases a) auto
  obtain y' m' d' where b: "b = (y', m', d')"
    by (cases b) auto
  have pa: "proper_date (y, m, d)" and pb: "proper_date (y', m', d')"
    using assms by (simp_all add: a b)
  consider "y < y'" | "y = y'" "m < m'" | "y = y'" "m = m'" "d < d'"
    using assms(3) by (auto simp: a b)
  then show ?thesis
  proof cases
    case 1
    then have "\<not> fst b \<le> fst a"
      by (simp add: a b)
    then show ?thesis
      using year_le_of_index [OF assms(2,1)] by linarith
  next
    case 2
    have ba: "1 \<le> m" "d \<le> days_in_month y m"
      using pa by (simp_all add: proper_date_def)
    have bb: "m' \<le> 12" "1 \<le> d'" "1 \<le> m'"
      using pb by (simp_all add: proper_date_def)
    have "m < 12"
      using 2 bb by simp
    have "(\<Sum>k = 1..<m. days_in_month y k) + days_in_month y m = (\<Sum>k = 1..<Suc m. days_in_month y k)"
      using ba(1) by simp
    also have "\<dots> \<le> (\<Sum>k = 1..<m'. days_in_month y k)"
      using 2 by (intro sum_mono2) auto
    finally have "int (\<Sum>k = 1..<m. days_in_month y k) + int d
                  \<le> int (\<Sum>k = 1..<m'. days_in_month y k)"
      using ba(2) by linarith
    then have "monthStart (int y) (int m - 1) + int d \<le> monthStart (int y) (int m' - 1)"
      using monthStart_sum [of m y] monthStart_sum [of m' y] ba bb \<open>m < 12\<close> by simp
    then show ?thesis
      using bb 2 pa pb by (simp add: a b day_index_eq)
  next
    case 3
    then show ?thesis
      using pa pb by (simp add: a b day_index_eq)
  qed
qed

lemma date_less_total: "date_less a b \<or> a = b \<or> date_less b a"
  by (cases a; cases b) auto

lemma date_less_iff_index:
  assumes "proper_date a" "proper_date b"
  shows "date_less a b \<longleftrightarrow> day_index a < day_index b"
proof
  assume "date_less a b"
  then show "day_index a < day_index b"
    using date_less_index [OF assms] by simp
next
  assume lt: "day_index a < day_index b"
  show "date_less a b"
  proof (rule ccontr)
    assume "\<not> date_less a b"
    then consider "a = b" | "date_less b a"
      using date_less_total [of a b] by auto
    then show False
    proof cases
      case 1
      then show ?thesis using lt by simp
    next
      case 2
      then show ?thesis
        using date_less_index [OF assms(2,1)] lt by simp
    qed
  qed
qed

text \<open>
  On a host without daylight-saving transitions, and for valid calendar dates \<open>s\<close> and \<open>e\<close> in
  canonical form: when \<open>s\<close> is not after \<open>e\<close>, the axis has \<open>day_number e - day_number s + 1\<close>
  entries, its entry \<open>k\<close> is the canonical form of the \<open>k\<close>-th calendar day after \<open>s\<close> (so
  consecutive entries are one calendar day apart), the dates are strictly increasing, the
  first entry is \<open>s\<close> and the last is \<open>e\<close>. On every host, the axis from a date to itself is
  that date alone, and the axis is empty when \<open>s\<close> is after \<open>e\<close>.
\<close>

theorem generateDateRange_steady:
  assumes "valid_date s" "valid_date e"
  shows "(steady h \<and> date_le s e \<longrightarrow>
           length (generateDateRange h (canonical s) (canonical e))
             = day_number e - day_number s + 1 \<and>
           (\<forall>k \<le> day_number e - day_number s.
              generateDateRange h (canonical s) (canonical e) ! k = canonical ((next_day ^^ k) s)) \<and>
           (\<forall>j k. j < k \<and> k \<le> day_number e - day_number s \<longrightarrow>
              date_less ((next_day ^^ j) s) ((next_day ^^ k) s)) \<and>
           (next_day ^^ (day_number e - day_number s)) s = e \<and>
           hd (generateDateRange h (canonical s) (canonical e)) = canonical s \<and>
           last (generateDateRange h (canonical s) (canonical e)) = canonical e) \<and>
         generateDateRange h (canonical s) (canonical s) = [canonical s] \<and>
         (date_less e s \<longrightarrow> generateDateRange h (canonical s) (canonical e) = [])"
proof -
  have ps: "proper_date s" and pe: "proper_date e"
    using assms by (simp_all add: valid_date_def)
  define out where "out = generateDateRange h (canonical s) (canonical e)"
  define iso where "iso = (\<lambda>t. hd (split_on CHR ''T'' (toISOString t)))"
  have out: "out = map (\<lambda>k. iso (msPerDay * (day_index s + int k)))
                     [0..<nat (day_index e - day_index s + 1)]" if "steady h"
    using gdr_loop_days [OF that, of "day_index s" "day_index e" "[]"]
    by (simp add: out_def generateDateRange_def Date_parse_canonical assms MakeDate_def
        mult.commute iso_def)
  have empty: "out = []" if "date_less e s"
  proof -
    have "MakeDate (day_index e) 0 < MakeDate (day_index s) 0"
      using date_less_index [OF pe ps that] msPerDay_pos by (simp add: MakeDate_def)
    then show ?thesis
      by (simp add: out_def generateDateRange_def Date_parse_canonical assms gdr_loop_done)
  qed
  have single: "generateDateRange h (canonical s) (canonical s) = [canonical s]"
    using iso_date_canonical [OF assms(1)]
    by (simp add: generateDateRange_def Date_parse_canonical assms gdr_loop_single)
  have main: "length out = day_number e - day_number s + 1 \<and>
           (\<forall>k \<le> day_number e - day_number s. out ! k = canonical ((next_day ^^ k) s)) \<and>
           (\<forall>j k. j < k \<and> k \<le> day_number e - day_number s \<longrightarrow>
              date_less ((next_day ^^ j) s) ((next_day ^^ k) s)) \<and>
           (next_day ^^ (day_number e - day_number s)) s = e \<and>
           hd out = canonical s \<and> last out = canonical e" if st: "steady h" and le: "date_le s e"
  proof -
    define n where "n = day_number e - day_number s"
    have "day_index s \<le> day_index e"
      using le date_less_index [OF ps pe] by (auto simp: date_le_def)
    then have ne: "day_number s \<le> day_number e"
      using day_index_number [OF ps] day_index_number [OF pe] by simp
    have idx: "day_index e = day_index s + int n"
      using day_index_number [OF ps] day_index_number [OF pe] ne by (simp add: n_def)
    have len: "length out = n + 1"
      by (simp add: out [OF st] idx)
    have fin: "(next_day ^^ n) s = e"
      using funpow_next_day [OF ps, of n] pe idx by (intro day_index_inj) simp_all
    have elem: "out ! k = canonical ((next_day ^^ k) s)" if "k \<le> n" for k
    proof -
      define c where "c = (next_day ^^ k) s"
      have pc: "proper_date c" and ic: "day_index c = day_index s + int k"
        using funpow_next_day [OF ps, of k] by (simp_all add: c_def)
      have "fst c \<le> fst e"
        using that by (intro year_le_of_index [OF pc pe]) (simp add: ic idx)
      then have vc: "valid_date c"
        using pc assms(2) by (simp add: valid_date_def)
      have "nat (int n + 1) = Suc n"
        by simp
      then have "out ! k = iso (msPerDay * (day_index s + int k))"
        using that by (simp add: out [OF st] idx del: upt_Suc)
      also have "\<dots> = canonical c"
        using iso_date_canonical [OF vc] by (simp add: iso_def MakeDate_def ic mult.commute)
      finally show ?thesis
        by (simp add: c_def)
    qed
    have incr: "date_less ((next_day ^^ j) s) ((next_day ^^ k) s)" if "j < k" for j k
      using funpow_next_day [OF ps, of j] funpow_next_day [OF ps, of k] that
      by (simp add: date_less_iff_index)
    have "out \<noteq> []"
      using len by auto
    then have "hd out = out ! 0" "last out = out ! n"
      using len by (simp_all add: hd_conv_nth last_conv_nth)
    then have "hd out = canonical s" "last out = canonical e"
      using elem [of 0] elem [of n] fin by simp_all
    then show ?thesis
      using len elem incr fin unfolding n_def by blast
  qed
  show ?thesis
    using main empty single unfolding out_def by blast
qed

theorem generateDateRange_steady_witness:
  "valid_date (2024, 2, 27) \<and> valid_date (2024, 3, 1) \<and> date_le (2024, 2, 27) (2024, 3, 1) \<and>
   steady \<lparr>standard_offset = 18000000, daylight = (\<lambda>t. False)\<rparr> \<and>
   generateDateRange \<lparr>standard_offset = 18000000, daylight = (\<lambda>t. False)\<rparr>
       ''2024-02-27'' ''2024-03-01''
     = [''2024-02-27'', ''2024-02-28'', ''2024-02-29'', ''2024-03-01''] \<and>
   day_number (2024, 3, 1) - day_number (2024, 2, 27) + 1 = 4 \<and>
   (next_day ^^ (day_number (2024, 3, 1) - day_number (2024, 2, 27))) (2024, 2, 27) = (2024, 3, 1) \<and>
   generateDateRange \<lparr>standard_offset = 18000000, daylight = (\<lambda>t. False)\<rparr>
       ''2024-03-01'' ''2024-02-27'' = []"
proof -
  let ?h = "\<lparr>standard_offset = 18000000, daylight = (\<lambda>t. False)\<rparr>"
  have v1: "valid_date (2024, 2, 27)"
    by (simp add: valid_date_def proper_date_def days_in_month_def leap_year_def)
  have v2: "valid_date (2024, 3, 1)"
    by (simp add: valid_date_def proper_date_def days_in_month_def leap_year_def)
  have le: "date_le (2024, 2, 27) (2024, 3, 1)"
    by (simp add: date_le_def)
  have lt: "date_less (2024, 2, 27) (2024, 3, 1)"
    by simp
  have st: "steady ?h"
    by (simp add: steady_def)
  have c1: "canonical (2024, 2, 27) = ''2024-02-27''"
    by code_simp
  have c2: "canonical (2024, 3, 1) = ''2024-03-01''"
    by code_simp
  have run: "generateDateRange ?h ''2024-02-27'' ''2024-03-01''
     = [''2024-02-27'', ''2024-02-28'', ''2024-02-29'', ''2024-03-01'']"
    by code_simp
  note up = generateDateRange_steady [OF v1 v2, of ?h, unfolded c1 c2]
  note down = generateDateRange_steady [OF v2 v1, of ?h, unfolded c1 c2]
  have "length (generateDateRange ?h ''2024-02-27'' ''2024-03-01'')
          = day_number (2024, 3, 1) - day_number (2024, 2, 27) + 1"
    using up le st by blast
  then have n: "day_number (2024, 3, 1) - day_number (2024, 2, 27) + 1 = 4"
    by (simp add: run)
  have f: "(next_day ^^ (day_number (2024, 3, 1) - day_number (2024, 2, 27))) (2024, 2, 27)
             = (2024, 3, 1)"
    using up le st by blast
  have e: "generateDateRange ?h ''2024-03-01'' ''2024-02-27'' = []"
    using down lt by blast
  show ?thesis
    using v1 v2 le st run n f e by blast
qed

text \<open>
  C2 asks for the same on every host. The code steps \<^verbatim>\<open>currentDate\<close> in local time and reads
  it in UTC, so after the end of daylight-saving time its time values are one hour past
  midnight UTC and the comparison with \<^verbatim>\<open>end\<close> (midnight UTC) leaves the last day out. The host
  below is at UTC-5 in standard time, with daylight-saving time until 2024-11-03T06:00Z: the
  axis from 2024-11-01 to 2024-11-05 has four entries and ends on 2024-11-04.
\<close>

theorem generateDateRange_daylight_saving_end:
  "generateDateRange \<lparr>standard_offset = - 18000000, daylight = (\<lambda>t. t < 1730613600000)\<rparr>
     ''2024-11-01'' ''2024-11-05''
   = [''2024-11-01'', ''2024-11-02'', ''2024-11-03'', ''2024-11-04'']"
  by code_simp

subsection \<open>formatDate\<close>

lemma numeric_no_slash: "numeric s \<Longrightarrow> CHR ''/'' \<notin> set s"
  by (auto simp: numeric_def)

lemma padStart_zero: "padStart s 2 ''0'' = replicate (2 - length s) CHR ''0'' @ s"
proof -
  have "concat (replicate n ''0'') = replicate n CHR ''0''" for n
    by (induction n) auto
  then show ?thesis
    by (simp add: padStart_def)
qed

lemma formatDate_three:
  assumes "CHR ''/'' \<notin> set m" "CHR ''/'' \<notin> set d" "CHR ''/'' \<notin> set y"
  shows "formatDate (m @ ''/'' @ d @ ''/'' @ y)
           = Inr (y @ ''-'' @ padStart m 2 ''0'' @ ''-'' @ padStart d 2 ''0'')"
  using assms by (simp add: formatDate_def split_on_sep split_on_no_sep)

lemma length_split_on: "length (split_on c s) = Suc (length (filter (\<lambda>x. x = c) s))"
  by (induction s) (auto split: list.splits)

lemma formatDate_parts_Inl: "formatDate_parts ps = Inl e \<longleftrightarrow> length ps < 2 \<and> e = TypeError"
  by (induction ps rule: formatDate_parts.induct) auto

lemma formatDate_Inl: "formatDate s = Inl e \<longleftrightarrow> CHR ''/'' \<notin> set s \<and> e = TypeError"
proof -
  have "length (filter (\<lambda>x. x = CHR ''/'') s) = 0 \<longleftrightarrow> CHR ''/'' \<notin> set s"
    by (auto simp: filter_empty_conv)
  then show ?thesis
    by (auto simp: formatDate_def formatDate_parts_Inl length_split_on)
qed

lemma formatDate_Inr: "CHR ''/'' \<in> set s \<Longrightarrow> \<exists>f. formatDate s = Inr f"
  using formatDate_Inl [of s] by (cases "formatDate s") auto

text \<open>
  C9. For numeric components \<open>m\<close>, \<open>d\<close>, \<open>y\<close>, \<^verbatim>\<open>formatDate\<close> of \<^verbatim>\<open>m/d/y\<close> succeeds and
  returns \<^verbatim>\<open>y-mm-dd\<close>, where month and day are filled with leading zeros to two digits (and
  left as they are when already that long); \<^verbatim>\<open>7/4/2024\<close> becomes \<^verbatim>\<open>2024-07-04\<close> and
  \<^verbatim>\<open>12/31/2024\<close> becomes \<^verbatim>\<open>2024-12-31\<close>.
\<close>

theorem formatDate_well_formed:
  "(numeric m \<and> numeric d \<and> numeric y \<longrightarrow>
     formatDate (m @ ''/'' @ d @ ''/'' @ y) =
       Inr (y @ ''-'' @ replicate (2 - length m) CHR ''0'' @ m @ ''-'' @
            replicate (2 - length d) CHR ''0'' @ d))
   \<and> formatDate ''7/4/2024'' = Inr ''2024-07-04''
   \<and> formatDate ''12/31/2024'' = Inr ''2024-12-31''"
proof (intro conjI impI)
  assume "numeric m \<and> numeric d \<and> numeric y"
  then show "formatDate (m @ ''/'' @ d @ ''/'' @ y) =
       Inr (y @ ''-'' @ replicate (2 - length m) CHR ''0'' @ m @ ''-'' @
            replicate (2 - length d) CHR ''0'' @ d)"
    using formatDate_three [of m d y] by (simp add: numeric_no_slash padStart_zero)
next
  show "formatDate ''7/4/2024'' = Inr ''2024-07-04''"
    by (simp add: formatDate_def padStart_def)
next
  show "formatDate ''12/31/2024'' = Inr ''2024-12-31''"
    by (simp add: formatDate_def padStart_def)
qed

theorem formatDate_well_formed_witness:
  "numeric ''9'' \<and> numeric ''15'' \<and> numeric ''2024'' \<and>
   formatDate ''9/15/2024'' = Inr ''2024-09-15''"
  using formatDate_well_formed [of "''9''" "''15''" "''2024''"]
  by (simp add: numeric_def)

subsection \<open>calculateSimpleMovingAverage\<close>

lemma sma_loop_eq:
  "sma_loop data i acc = acc @ map (\<lambda>j. if j < 13 then data ! j
      else foldl (\<lambda>acc val. acc + val) 0 (slice data (int j - 13) (int j + 1))
             / of_nat (length (slice data (int j - 13) (int j + 1)))) [i..<length data]"
proof (induction data i acc rule: sma_loop.induct)
  case (1 data i movingAverage)
  show ?case
  proof (cases "i < length data")
    case True
    then show ?thesis
      using 1 by (subst sma_loop.simps) (simp add: upt_conv_Cons Let_def)
  next
    case False
    then show ?thesis
      by (subst sma_loop.simps) simp
  qed
qed



lemma sma_length: "length (calculateSimpleMovingAverage data) = length data"
  by (simp add: calculateSimpleMovingAverage_def sma_loop_eq)






subsection \<open>Series discovery\<close>

lemma foldl_Set_add_set: "set (foldl Set_add acc xs) = set acc \<union> set xs"
  by (induction xs arbitrary: acc) (auto simp: Set_add_def)

lemma foldl_Set_add_distinct: "distinct acc \<Longrightarrow> distinct (foldl Set_add acc xs)"
  by (induction xs arbitrary: acc) (auto simp: Set_add_def)

lemma set_new_Set: "set (new_Set xs) = set xs"
  by (simp add: new_Set_def foldl_Set_add_set)

lemma distinct_new_Set: "distinct (new_Set xs)"
  by (simp add: new_Set_def foldl_Set_add_distinct)

lemma new_Set_snoc:
  "new_Set (xs @ [x]) = (if x \<in> set xs then new_Set xs else new_Set xs @ [x])"
  using set_new_Set [of xs] by (simp add: new_Set_def Set_add_def)

lemma length_discoveredUCs: "length (discoveredUCs jsonData) = card (name ` set jsonData)"
  using distinct_card [OF distinct_new_Set, of "map name jsonData"]
  by (simp add: discoveredUCs_def set_new_Set)

subsection \<open>The value lookup\<close>


lemma dataLookup_fill_ok:
  "(\<forall>item \<in> set items. CHR ''/'' \<in> set (confirmation_date item)) \<Longrightarrow>
   \<exists>m'. dataLookup_fill items m = Inr m'"
proof (induction items arbitrary: m)
  case Nil
  then show ?case by simp
next
  case (Cons item items)
  obtain f where "formatDate (confirmation_date item) = Inr f"
    using Cons.prems formatDate_Inr by force
  then show ?case
    using Cons by simp
qed

lemma dataLookup_fill_fails:
  "(\<exists>item \<in> set items. CHR ''/'' \<notin> set (confirmation_date item)) \<Longrightarrow>
   dataLookup_fill items m = Inl TypeError"
proof (induction items arbitrary: m)
  case Nil
  then show ?case by simp
next
  case (Cons item items)
  show ?case
  proof (cases "formatDate (confirmation_date item)")
    case (Inl e)
    then show ?thesis
      using formatDate_Inl [of "confirmation_date item" e] by simp
  next
    case (Inr f)
    then have "CHR ''/'' \<in> set (confirmation_date item)"
      using formatDate_Inl [of "confirmation_date item" TypeError] by auto
    then show ?thesis
      using Cons Inr by auto
  qed
qed

lemma dataLookup_fill_other:
  "dataLookup_fill items m = Inr m' \<Longrightarrow>
   (\<forall>z \<in> set items. \<forall>fz. formatDate (confirmation_date z) = Inr fz \<longrightarrow>
      lookupKey (name z) fz \<noteq> k) \<Longrightarrow>
   m' k = m k"
proof (induction items arbitrary: m)
  case Nil
  then show ?case by simp
next
  case (Cons item items)
  then obtain f where f: "formatDate (confirmation_date item) = Inr f"
    by (auto split: sum.splits)
  have step: "dataLookup_fill items (m(lookupKey (name item) f \<mapsto> value item)) = Inr m'"
    using Cons.prems(1) f by simp
  have "m' k = (m(lookupKey (name item) f \<mapsto> value item)) k"
    using Cons.prems(2) by (intro Cons.IH [OF step]) simp
  moreover have "lookupKey (name item) f \<noteq> k"
    using Cons.prems(2) f by simp
  ultimately show ?case
    by simp
qed




subsection \<open>Totals and ranking\<close>

lemma get_or_0_eq: "get_or_0 m k = (case m k of None \<Rightarrow> 0 | Some v \<Rightarrow> v)"
  by (simp add: get_or_0_def split: option.splits)

lemma foldl_total:
  "foldl (\<lambda>sum date. sum + get_or_0 m (lookupKey uc date)) a axis = a + series_total m axis uc"
  by (induction axis arbitrary: a) (simp_all add: series_total_def get_or_0_eq add.assoc)

lemma ucTotals_eq: "ucTotals m axis ucs = map (\<lambda>uc. (uc, series_total m axis uc)) ucs"
  by (simp add: ucTotals_def foldl_total)

lemma insort_key_map:
  "insort_key f (g x) (map g ys) = map g (insort_key (\<lambda>y. f (g y)) x ys)"
  by (induction ys) simp_all

lemma sort_key_map: "sort_key f (map g xs) = map g (sort_key (\<lambda>y. f (g y)) xs)"
  by (induction xs) (simp_all add: insort_key_map)

lemma slice_0_nonneg: "0 \<le> n \<Longrightarrow> slice xs 0 n = take (nat n) xs"
  by (simp add: slice_def relative_index_def Let_def min_def)


lemma topUCs_eq:
  "topUCs (ucTotals m axis ucs) topN
     = slice (sort_key (\<lambda>uc. - series_total m axis uc) ucs) 0 topN"
proof -
  have "map fst (slice xs 0 topN) = slice (map fst xs) 0 topN" for xs :: "(string \<times> rat) list"
    by (simp add: slice_def Let_def take_map drop_map)
  then show ?thesis
    by (simp add: topUCs_def ucTotals_eq sort_key_map comp_def)
qed

subsection \<open>Densification\<close>

lemma map_of_obj_set:
  "map_of (obj_set point key v) = (if key = ''__proto__'' then map_of point else (map_of point)(key \<mapsto> v))"
  by (simp add: obj_set_def update_conv')

lemma map_of_foldl_obj_set:
  "map_of (foldl (\<lambda>dataPoint uc. obj_set dataPoint uc (g uc)) p tops) k
     = (if k \<in> set tops \<and> k \<noteq> ''__proto__'' then Some (g k) else map_of p k)"
  by (induction tops arbitrary: p) (simp_all add: map_of_obj_set)

lemma map_of_dataPoint_of:
  "map_of (dataPoint_of m tops date) k =
     (if k \<in> set tops \<and> k \<noteq> ''__proto__'' then Some (Num (get_or_0 m (lookupKey k date)))
      else if k = ''date'' then Some (Str date) else None)"
  unfolding dataPoint_of_def map_of_foldl_obj_set by simp

lemma keys_eq_dom: "fst ` set al = dom (map_of al)"
  by (simp add: dom_map_of_conv_image_fst)

lemma keys_dataPoint_of:
  "fst ` set (dataPoint_of m tops date) = insert ''date'' (set tops - {''__proto__''})"
  unfolding keys_eq_dom by (auto simp: map_of_dataPoint_of dom_def split: if_splits)

lemma dataLookup_of_absent:
  assumes "dataLookup_of jsonData = Inr m"
    and "\<forall>r \<in> set jsonData. \<forall>f. formatDate (confirmation_date r) = Inr f \<longrightarrow>
           lookupKey (name r) f \<noteq> k"
  shows "m k = None"
  using dataLookup_fill_other [OF assms(1) [unfolded dataLookup_of_def] assms(2)] by simp

text \<open>
  The dense matrix has one row per date of the axis, in axis order. Row \<open>i\<close> holds, for every
  selected series other than \<^verbatim>\<open>__proto__\<close>, a number: the value looked up for the series and the
  date \<open>axis ! i\<close>, or 0 when there is none; in particular it holds 0 when no record has the
  key of the series and that date. Its keys are \<^verbatim>\<open>date\<close> and the selected series other than
  \<^verbatim>\<open>__proto__\<close>, and \<^verbatim>\<open>date\<close> holds the date of the row unless a selected series is itself named
  \<^verbatim>\<open>date\<close>.
\<close>

theorem formattedData_dense:
  "length (formattedData dataLookup axis tops) = length axis \<and>
   (\<forall>i < length axis.
      (\<forall>uc \<in> set tops. uc \<noteq> ''__proto__'' \<longrightarrow>
         map_of (formattedData dataLookup axis tops ! i) uc
           = Some (Num (case dataLookup (lookupKey uc (axis ! i)) of None \<Rightarrow> 0 | Some v \<Rightarrow> v)) \<and>
         (dataLookup_of jsonData = Inr dataLookup \<and>
          (\<forall>r \<in> set jsonData. \<forall>f. formatDate (confirmation_date r) = Inr f \<longrightarrow>
             lookupKey (name r) f \<noteq> lookupKey uc (axis ! i)) \<longrightarrow>
          map_of (formattedData dataLookup axis tops ! i) uc = Some (Num 0))) \<and>
      (''date'' \<notin> set tops \<longrightarrow>
         map_of (formattedData dataLookup axis tops ! i) ''date'' = Some (Str (axis ! i))) \<and>
      fst ` set (formattedData dataLookup axis tops ! i)
        = insert ''date'' (set tops - {''__proto__''}))"
proof -
  have cell: "map_of (formattedData dataLookup axis tops ! i) uc
       = Some (Num (case dataLookup (lookupKey uc (axis ! i)) of None \<Rightarrow> 0 | Some v \<Rightarrow> v))"
    if "i < length axis" "uc \<in> set tops" "uc \<noteq> ''__proto__''" for i uc
    using that by (simp add: formattedData_def map_of_dataPoint_of get_or_0_eq)
  have zero: "map_of (formattedData dataLookup axis tops ! i) uc = Some (Num 0)"
    if "i < length axis" "uc \<in> set tops" "uc \<noteq> ''__proto__''"
      "dataLookup_of jsonData = Inr dataLookup"
      "\<forall>r \<in> set jsonData. \<forall>f. formatDate (confirmation_date r) = Inr f \<longrightarrow>
             lookupKey (name r) f \<noteq> lookupKey uc (axis ! i)" for i uc
    using cell [OF that(1,2,3)] dataLookup_of_absent [OF that(4,5)] by simp
  have label: "map_of (formattedData dataLookup axis tops ! i) ''date'' = Some (Str (axis ! i))"
    if "i < length axis" "''date'' \<notin> set tops" for i
    using that by (simp add: formattedData_def map_of_dataPoint_of)
  have keys: "fst ` set (formattedData dataLookup axis tops ! i)
                = insert ''date'' (set tops - {''__proto__''})"
    if "i < length axis" for i
    using that by (simp add: formattedData_def keys_dataPoint_of)
  show ?thesis
  proof (intro conjI allI impI ballI)
    show "length (formattedData dataLookup axis tops) = length axis"
      by (simp add: formattedData_def)
  next
    fix i uc
    assume "i < length axis" "uc \<in> set tops" "uc \<noteq> ''__proto__''"
    then show "map_of (formattedData dataLookup axis tops ! i) uc
       = Some (Num (case dataLookup (lookupKey uc (axis ! i)) of None \<Rightarrow> 0 | Some v \<Rightarrow> v))"
      by (rule cell)
  next
    fix i uc
    assume "i < length axis" "uc \<in> set tops" "uc \<noteq> ''__proto__''"
      and "dataLookup_of jsonData = Inr dataLookup \<and>
          (\<forall>r \<in> set jsonData. \<forall>f. formatDate (confirmation_date r) = Inr f \<longrightarrow>
             lookupKey (name r) f \<noteq> lookupKey uc (axis ! i))"
    then show "map_of (formattedData dataLookup axis tops ! i) uc = Some (Num 0)"
      using zero [of i uc] by simp
  next
    fix i
    assume "i < length axis" "''date'' \<notin> set tops"
    then show "map_of (formattedData dataLookup axis tops ! i) ''date'' = Some (Str (axis ! i))"
      by (rule label)
  next
    fix i
    assume "i < length axis"
    then show "fst ` set (formattedData dataLookup axis tops ! i)
                = insert ''date'' (set tops - {''__proto__''})"
      by (rule keys)
  qed
qed

theorem formattedData_dense_witness:
  "\<exists>m. dataLookup_of [\<lparr>name = ''X'', confirmation_date = ''7/1/2024'', value = 5\<rparr>] = Inr m \<and>
        formattedData m [''2024-07-01'', ''2024-07-02''] [''X'']
          = [[(''date'', Str ''2024-07-01''), (''X'', Num 5)],
             [(''date'', Str ''2024-07-02''), (''X'', Num 0)]] \<and>
        map_of (formattedData m [''2024-07-01'', ''2024-07-02''] [''X''] ! 1) ''X'' = Some (Num 0)"
proof -
  let ?r = "\<lparr>name = ''X'', confirmation_date = ''7/1/2024'', value = 5::rat\<rparr>"
  let ?axis = "[''2024-07-01'', ''2024-07-02'']"
  have f: "formatDate ''7/1/2024'' = Inr ''2024-07-01''"
    by (simp add: formatDate_def padStart_def)
  define m where "m = [''X-2024-07-01'' \<mapsto> 5::rat]"
  have m: "dataLookup_of [?r] = Inr m"
    by (simp add: dataLookup_of_def f lookupKey_def m_def)
  have run: "formattedData m ?axis [''X'']
     = [[(''date'', Str ''2024-07-01''), (''X'', Num 5)],
        [(''date'', Str ''2024-07-02''), (''X'', Num 0)]]"
    by (simp add: formattedData_def dataPoint_of_def obj_set_def get_or_0_def lookupKey_def m_def)
  have absent: "\<forall>r \<in> set [?r]. \<forall>f. formatDate (confirmation_date r) = Inr f \<longrightarrow>
             lookupKey (name r) f \<noteq> lookupKey ''X'' (?axis ! 1)"
    by (simp add: f lookupKey_def)
  have i: "1 < length ?axis" and u: "''X'' \<in> set [''X'']" and n: "''X'' \<noteq> ''__proto__''"
    by simp_all
  have "dataLookup_of [?r] = Inr m \<and>
          (\<forall>r \<in> set [?r]. \<forall>f. formatDate (confirmation_date r) = Inr f \<longrightarrow>
             lookupKey (name r) f \<noteq> lookupKey ''X'' (?axis ! 1)) \<longrightarrow>
        map_of (formattedData m ?axis [''X''] ! 1) ''X'' = Some (Num 0)"
    using formattedData_dense [of m ?axis "[''X'']" "[?r]", THEN conjunct2, THEN spec, THEN mp,
        OF i, THEN conjunct1, THEN bspec, OF u, THEN mp, OF n, THEN conjunct2] .
  then have "map_of (formattedData m ?axis [''X''] ! 1) ''X'' = Some (Num 0)"
    using m absent by (rule mp [OF _ conjI])
  then show ?thesis
    using m run by blast
qed

text \<open>
  C5 asks for a number in every row for every selected series: never an omitted key. For one
  name the code omits the key. \<^verbatim>\<open>dataPoint[uc] = ...\<close> on the object literal does not create a
  property when \<open>uc\<close> is \<^verbatim>\<open>__proto__\<close>, so the rows of a selected series of that name hold the
  date alone, here with a value of 5 in the lookup for the series and the date.
\<close>

theorem formattedData_proto_omitted:
  "formattedData [''__proto__-2024-07-01'' \<mapsto> 5] [''2024-07-01''] [''__proto__'']
     = [[(''date'', Str ''2024-07-01'')]]"
  by (simp add: formattedData_def dataPoint_of_def obj_set_def)

subsection \<open>Smoothing\<close>

lemma as_number_Some: "as_number c = Some v \<longleftrightarrow> c = Some (Num v)"
  by (cases c rule: as_number.cases) auto

lemma those_as_number:
  "those (map as_number cs) = Some raw \<longleftrightarrow> cs = map (\<lambda>v. Some (Num v)) raw"
proof (induction cs arbitrary: raw)
  case Nil
  then show ?case by auto
next
  case (Cons c cs)
  show ?case
  proof (cases "as_number c")
    case None
    then have "c \<noteq> Some (Num v)" for v
      by auto
    then show ?thesis
      using None by (cases raw) auto
  next
    case (Some v)
    then have c: "c = Some (Num v)"
      by (simp add: as_number_Some)
    show ?thesis
      using Cons.IH by (cases raw) (auto simp: c split: option.splits)
  qed
qed

lemma ucData_of_column:
  "uc \<noteq> ''__proto__'' \<Longrightarrow> ucData_of points uc = those (map as_number (column points uc))"
  by (simp add: ucData_of_def number_at_def column_def comp_def)

lemma ucData_of_Some:
  "uc \<noteq> ''__proto__'' \<Longrightarrow>
   ucData_of points uc = Some raw \<longleftrightarrow> column points uc = map (\<lambda>v. Some (Num v)) raw"
  by (simp add: ucData_of_column those_as_number)

lemma ucData_of_proto: "ucData_of points ''__proto__'' = Some raw \<longleftrightarrow> points = [] \<and> raw = []"
proof (cases points)
  case Nil
  then show ?thesis
    by (auto simp: ucData_of_def)
next
  case (Cons p ps)
  then show ?thesis
    by (simp add: ucData_of_def number_at_def)
qed

lemma length_column: "length (column points k) = length points"
  by (simp add: column_def)

lemma smooth_uc_proto: "smooth_uc points ''__proto__'' = Some points"
proof -
  have "map (\<lambda>(index, point). point) (enumerate 0 points) = points"
    by (intro nth_equalityI) (simp_all add: nth_enumerate_eq)
  then show ?thesis
    by (simp add: smooth_uc_def obj_set_def Let_def split: option.splits)
qed

lemma smooth_uc_column:
  assumes "ucData_of points uc = Some raw" "uc \<noteq> ''__proto__''"
  shows "\<exists>points'. smooth_uc points uc = Some points' \<and> length points' = length points \<and>
           column points' uc = map (\<lambda>v. Some (Num v)) (calculateSimpleMovingAverage raw) \<and>
           (\<forall>k. k \<noteq> uc \<longrightarrow> column points' k = column points k)"
proof -
  define ma where "ma = calculateSimpleMovingAverage raw"
  define points' where
    "points' = map (\<lambda>(index, point). obj_set point uc (Num (ma ! index))) (enumerate 0 points)"
  have len: "length raw = length points"
    using assms length_column [of points uc] by (simp add: ucData_of_Some)
  then have lma: "length ma = length points"
    by (simp add: ma_def sma_length)
  have s: "smooth_uc points uc = Some points'"
    by (simp add: smooth_uc_def assms Let_def points'_def ma_def)
  have row: "map_of (points' ! i) = (map_of (points ! i))(uc \<mapsto> Num (ma ! i))"
    if "i < length points" for i
    using that assms(2) by (simp add: points'_def nth_enumerate_eq map_of_obj_set)
  have l: "length points' = length points"
    by (simp add: points'_def)
  have "column points' uc = map (\<lambda>v. Some (Num v)) ma"
    using lma by (intro nth_equalityI) (simp_all add: column_def l row)
  moreover have "column points' k = column points k" if "k \<noteq> uc" for k
    using that by (intro nth_equalityI) (simp_all add: column_def l row)
  ultimately show ?thesis
    using s l unfolding ma_def by blast
qed

lemma ucData_of_cong:
  "column points' u = column points u \<Longrightarrow> ucData_of points' u = ucData_of points u"
proof (cases "u = ''__proto__''")
  case True
  assume "column points' u = column points u"
  then have "length points' = length points"
    using length_column [of points' u] length_column [of points u] by simp
  then have "map (\<lambda>point. None :: rat option) points' = map (\<lambda>point. None) points"
    by (intro nth_equalityI) simp_all
  then show ?thesis
    by (simp add: ucData_of_def number_at_def True)
next
  case False
  assume "column points' u = column points u"
  then show ?thesis
    using False by (simp add: ucData_of_column)
qed

lemma smooth_columns:
  assumes "distinct tops"
    and "\<forall>u \<in> set tops. u \<noteq> ''__proto__'' \<longrightarrow> (\<exists>raw. ucData_of points u = Some raw)"
  shows "\<exists>sm. smooth points tops = Some sm \<and> length sm = length points \<and>
           (\<forall>k. k \<notin> set tops \<or> k = ''__proto__'' \<longrightarrow> column sm k = column points k) \<and>
           (\<forall>u \<in> set tops. u \<noteq> ''__proto__'' \<longrightarrow>
              (\<forall>raw. ucData_of points u = Some raw \<longrightarrow>
                 ucData_of sm u = Some (calculateSimpleMovingAverage raw)))"
  using assms
proof (induction tops arbitrary: points)
  case Nil
  then show ?case by simp
next
  case (Cons uc ucs)
  have d: "distinct ucs" and notin: "uc \<notin> set ucs"
    using Cons.prems(1) by simp_all
  show ?case
  proof (cases "uc = ''__proto__''")
    case True
    have dense: "\<forall>u \<in> set ucs. u \<noteq> ''__proto__'' \<longrightarrow> (\<exists>raw. ucData_of points u = Some raw)"
      using Cons.prems(2) by simp
    from Cons.IH [OF d dense] obtain sm where ih:
        "smooth points ucs = Some sm \<and> length sm = length points \<and>
         (\<forall>k. k \<notin> set ucs \<or> k = ''__proto__'' \<longrightarrow> column sm k = column points k) \<and>
         (\<forall>u \<in> set ucs. u \<noteq> ''__proto__'' \<longrightarrow>
            (\<forall>raw. ucData_of points u = Some raw \<longrightarrow>
               ucData_of sm u = Some (calculateSimpleMovingAverage raw)))" ..
    have sm: "smooth points ucs = Some sm" "length sm = length points"
        "\<And>k. k \<notin> set ucs \<or> k = ''__proto__'' \<Longrightarrow> column sm k = column points k"
        "\<And>u raw. u \<in> set ucs \<Longrightarrow> u \<noteq> ''__proto__'' \<Longrightarrow> ucData_of points u = Some raw \<Longrightarrow>
           ucData_of sm u = Some (calculateSimpleMovingAverage raw)"
      using ih by simp_all
    have "smooth points (uc # ucs) = Some sm"
      by (simp add: True smooth_uc_proto sm(1))
    moreover have "column sm k = column points k"
      if "k \<notin> set (uc # ucs) \<or> k = ''__proto__''" for k
    proof -
      have "k \<notin> set ucs \<or> k = ''__proto__''"
        using that by auto
      then show ?thesis
        by (rule sm(3))
    qed
    moreover have "ucData_of sm u = Some (calculateSimpleMovingAverage r)"
      if "u \<in> set (uc # ucs)" "u \<noteq> ''__proto__''" "ucData_of points u = Some r" for u r
    proof -
      have "u \<in> set ucs"
        using that(1,2) True by auto
      then show ?thesis
        using that(2,3) by (rule sm(4))
    qed
    ultimately show ?thesis
      using sm(2) by blast
  next
    case False
    obtain raw where raw: "ucData_of points uc = Some raw"
      using Cons.prems(2) False by auto
    obtain points' where p': "smooth_uc points uc = Some points'" "length points' = length points"
        "column points' uc = map (\<lambda>v. Some (Num v)) (calculateSimpleMovingAverage raw)"
        "\<And>k. k \<noteq> uc \<Longrightarrow> column points' k = column points k"
      using smooth_uc_column [OF raw False] by blast
    have other: "ucData_of points' u = ucData_of points u" if "u \<noteq> uc" for u
      using p'(4) [OF that] by (rule ucData_of_cong)
    have dense: "\<forall>u \<in> set ucs. u \<noteq> ''__proto__'' \<longrightarrow> (\<exists>raw. ucData_of points' u = Some raw)"
    proof (intro ballI impI)
      fix u
      assume u: "u \<in> set ucs" "u \<noteq> ''__proto__''"
      then have "u \<noteq> uc"
        using notin by auto
      then show "\<exists>raw. ucData_of points' u = Some raw"
        using Cons.prems(2) u other [of u] by simp
    qed
    from Cons.IH [OF d dense] obtain sm where ih:
        "smooth points' ucs = Some sm \<and> length sm = length points' \<and>
         (\<forall>k. k \<notin> set ucs \<or> k = ''__proto__'' \<longrightarrow> column sm k = column points' k) \<and>
         (\<forall>u \<in> set ucs. u \<noteq> ''__proto__'' \<longrightarrow>
            (\<forall>raw. ucData_of points' u = Some raw \<longrightarrow>
               ucData_of sm u = Some (calculateSimpleMovingAverage raw)))" ..
    have sm: "smooth points' ucs = Some sm" "length sm = length points'"
        "\<And>k. k \<notin> set ucs \<or> k = ''__proto__'' \<Longrightarrow> column sm k = column points' k"
        "\<And>u raw. u \<in> set ucs \<Longrightarrow> u \<noteq> ''__proto__'' \<Longrightarrow> ucData_of points' u = Some raw \<Longrightarrow>
           ucData_of sm u = Some (calculateSimpleMovingAverage raw)"
      using ih by simp_all
    have "smooth points (uc # ucs) = Some sm"
      by (simp add: p'(1) sm(1))
    moreover have "length sm = length points"
      by (simp add: sm(2) p'(2))
    moreover have "column sm k = column points k"
      if "k \<notin> set (uc # ucs) \<or> k = ''__proto__''" for k
    proof -
      have "k \<noteq> uc" "k \<notin> set ucs \<or> k = ''__proto__''"
        using that False by auto
      then show ?thesis
        using sm(3) [of k] p'(4) [of k] by simp
    qed
    moreover have "ucData_of sm u = Some (calculateSimpleMovingAverage r)"
      if "u \<in> set (uc # ucs)" "u \<noteq> ''__proto__''" "ucData_of points u = Some r" for u r
    proof (cases "u = uc")
      case True
      then have "r = raw"
        using that(3) raw by simp
      have "column sm uc = column points' uc"
        using sm(3) [of uc] notin by simp
      then show ?thesis
        using p'(3) False by (simp add: True \<open>r = raw\<close> ucData_of_Some)
    next
      case neq: False
      then show ?thesis
        using that sm(4) [of u r] other [of u] by simp
    qed
    ultimately show ?thesis
      by blast
  qed
qed

lemma smooth_dense:
  assumes "distinct tops"
    and "\<forall>u \<in> set tops. \<exists>raw. ucData_of points u = Some raw"
    and "uc \<in> set tops"
    and "ucData_of points uc = Some raw"
  shows "\<exists>sm. smooth points tops = Some sm \<and>
           ucData_of sm uc = Some (calculateSimpleMovingAverage raw)"
proof -
  have dense: "\<forall>u \<in> set tops. u \<noteq> ''__proto__'' \<longrightarrow> (\<exists>raw. ucData_of points u = Some raw)"
    using assms(2) by simp
  from smooth_columns [OF assms(1) dense] obtain sm where all:
      "smooth points tops = Some sm \<and> length sm = length points \<and>
       (\<forall>k. k \<notin> set tops \<or> k = ''__proto__'' \<longrightarrow> column sm k = column points k) \<and>
       (\<forall>u \<in> set tops. u \<noteq> ''__proto__'' \<longrightarrow>
          (\<forall>raw. ucData_of points u = Some raw \<longrightarrow>
             ucData_of sm u = Some (calculateSimpleMovingAverage raw)))" ..
  have sm: "smooth points tops = Some sm" "length sm = length points"
      "\<And>u raw. u \<in> set tops \<Longrightarrow> u \<noteq> ''__proto__'' \<Longrightarrow> ucData_of points u = Some raw \<Longrightarrow>
         ucData_of sm u = Some (calculateSimpleMovingAverage raw)"
    using all by simp_all
  have "ucData_of sm uc = Some (calculateSimpleMovingAverage raw)"
  proof (cases "uc = ''__proto__''")
    case True
    then have e: "points = []" "raw = []"
      using assms(4) by (simp_all add: ucData_of_proto)
    then have "sm = []"
      using sm(2) by simp
    moreover have "calculateSimpleMovingAverage ([] :: rat list) = []"
      using sma_length [of "[] :: rat list"] by simp
    ultimately show ?thesis
      using e by (simp add: ucData_of_def)
  next
    case False
    show ?thesis
      using assms(3) False assms(4) by (rule sm(3))
  qed
  then show ?thesis
    using sm(1) by simp
qed

subsection \<open>The callback as a whole\<close>

lemma column_formattedData:
  "column (formattedData m axis tops) k =
     map (\<lambda>date. if k \<in> set tops \<and> k \<noteq> ''__proto__'' then Some (Num (get_or_0 m (lookupKey k date)))
                  else if k = ''date'' then Some (Str date) else None) axis"
  by (simp add: column_def formattedData_def map_of_dataPoint_of comp_def)

lemma ucData_of_formattedData:
  "u \<in> set tops \<Longrightarrow> u \<noteq> ''__proto__'' \<Longrightarrow>
   ucData_of (formattedData m axis tops) u = Some (map (\<lambda>date. get_or_0 m (lookupKey u date)) axis)"
  by (simp add: ucData_of_Some column_formattedData comp_def)

lemma distinct_slice: "distinct xs \<Longrightarrow> distinct (slice xs a b)"
  by (simp add: slice_def Let_def)

lemma distinct_topUCs: "distinct ucs \<Longrightarrow> distinct (topUCs (ucTotals m axis ucs) topN)"
  by (simp add: topUCs_eq distinct_slice)

lemma distinct_discoveredUCs: "distinct (discoveredUCs jsonData)"
  by (simp add: discoveredUCs_def distinct_new_Set)

lemma processData_Inl: "dataLookup_of jsonData = Inl e \<Longrightarrow> processData jsonData axis topN = Inl e"
  by (simp add: processData_def)

lemma processData_Inr:
  assumes "dataLookup_of jsonData = Inr m"
    and tops_def: "tops = topUCs (ucTotals m axis (discoveredUCs jsonData)) topN"
  shows "\<exists>sm. processData jsonData axis topN = Inr \<lparr>chartData = sm, uniqueUCs = tops\<rparr> \<and>
           length sm = length axis \<and>
           (\<forall>k. k \<notin> set tops \<or> k = ''__proto__'' \<longrightarrow>
              column sm k = column (formattedData m axis tops) k) \<and>
           (\<forall>u \<in> set tops. u \<noteq> ''__proto__'' \<longrightarrow> ucData_of sm u =
              Some (calculateSimpleMovingAverage (map (\<lambda>date. get_or_0 m (lookupKey u date)) axis)))"
proof -
  let ?points = "formattedData m axis tops"
  have d: "distinct tops"
    unfolding tops_def by (intro distinct_topUCs distinct_discoveredUCs)
  have dense: "\<forall>u \<in> set tops. u \<noteq> ''__proto__'' \<longrightarrow> (\<exists>raw. ucData_of ?points u = Some raw)"
    by (simp add: ucData_of_formattedData)
  from smooth_columns [OF d dense] obtain sm where all:
      "smooth ?points tops = Some sm \<and> length sm = length ?points \<and>
       (\<forall>k. k \<notin> set tops \<or> k = ''__proto__'' \<longrightarrow> column sm k = column ?points k) \<and>
       (\<forall>u \<in> set tops. u \<noteq> ''__proto__'' \<longrightarrow>
          (\<forall>raw. ucData_of ?points u = Some raw \<longrightarrow>
             ucData_of sm u = Some (calculateSimpleMovingAverage raw)))" ..
  have sm: "smooth ?points tops = Some sm" "length sm = length ?points"
      "\<And>k. k \<notin> set tops \<or> k = ''__proto__'' \<Longrightarrow> column sm k = column ?points k"
      "\<And>u raw. u \<in> set tops \<Longrightarrow> u \<noteq> ''__proto__'' \<Longrightarrow> ucData_of ?points u = Some raw \<Longrightarrow>
         ucData_of sm u = Some (calculateSimpleMovingAverage raw)"
    using all by simp_all
  have run: "processData jsonData axis topN = Inr \<lparr>chartData = sm, uniqueUCs = tops\<rparr>"
    using sm(1) by (simp add: processData_def assms(1) Let_def tops_def [symmetric])
  have len: "length sm = length axis"
    by (simp add: sm(2) formattedData_def)
  have avg: "ucData_of sm u =
      Some (calculateSimpleMovingAverage (map (\<lambda>date. get_or_0 m (lookupKey u date)) axis))"
    if "u \<in> set tops" "u \<noteq> ''__proto__''" for u
    using sm(4) [OF that ucData_of_formattedData [OF that]] .
  show ?thesis
  proof (intro exI [of _ sm] conjI allI impI ballI)
    show "processData jsonData axis topN = Inr \<lparr>chartData = sm, uniqueUCs = tops\<rparr>"
      by (rule run)
    show "length sm = length axis"
      by (rule len)
    show "column sm k = column ?points k" if "k \<notin> set tops \<or> k = ''__proto__''" for k
      using that by (rule sm(3))
    show "ucData_of sm u =
        Some (calculateSimpleMovingAverage (map (\<lambda>date. get_or_0 m (lookupKey u date)) axis))"
      if "u \<in> set tops" "u \<noteq> ''__proto__''" for u
      using that by (rule avg)
  qed
qed

lemma dataLookup_of_cases:
  "(\<exists>item \<in> set jsonData. CHR ''/'' \<notin> set (confirmation_date item)) \<and>
     dataLookup_of jsonData = Inl TypeError \<or>
   (\<forall>item \<in> set jsonData. CHR ''/'' \<in> set (confirmation_date item)) \<and>
     (\<exists>m. dataLookup_of jsonData = Inr m)"
  using dataLookup_fill_fails [of jsonData Map.empty] dataLookup_fill_ok [of jsonData Map.empty]
  unfolding dataLookup_of_def by blast

lemma processData_never_IllTyped: "processData jsonData axis topN \<noteq> Inl IllTyped"
proof (cases "dataLookup_of jsonData")
  case (Inl e)
  then have "e = TypeError"
    using dataLookup_of_cases [of jsonData] by auto
  then show ?thesis
    using processData_Inl [OF Inl] by simp
next
  case (Inr m)
  from processData_Inr [OF Inr refl, of axis topN] obtain sm where
    "processData jsonData axis topN
       = Inr \<lparr>chartData = sm, uniqueUCs = topUCs (ucTotals m axis (discoveredUCs jsonData)) topN\<rparr>"
    by (elim exE conjE)
  then show ?thesis
    by simp
qed

lemma row_keys:
  assumes "length sm = length axis"
    and "\<And>k. k \<notin> set tops \<or> k = ''__proto__'' \<Longrightarrow>
           column sm k = column (formattedData m axis tops) k"
    and "\<And>u. u \<in> set tops \<Longrightarrow> u \<noteq> ''__proto__'' \<Longrightarrow> \<exists>vs. ucData_of sm u = Some vs"
    and "row \<in> set sm"
  shows "fst ` set row = insert ''date'' (set tops - {''__proto__''})"
proof -
  obtain i where i: "i < length sm" "row = sm ! i"
    using assms(4) by (auto simp: in_set_conv_nth)
  have at: "map_of row k = column sm k ! i" for k
    using i by (simp add: column_def)
  have "map_of row k \<noteq> None \<longleftrightarrow> k \<in> insert ''date'' (set tops - {''__proto__''})" for k
  proof (cases "k \<in> set tops \<and> k \<noteq> ''__proto__''")
    case True
    then obtain vs where "column sm k = map (\<lambda>v. Some (Num v)) vs"
      using assms(3) [of k] by (auto simp: ucData_of_Some)
    moreover from this have "length vs = length sm"
      using length_column [of sm k] by simp
    ultimately show ?thesis
      using True i(1) by (simp add: at)
  next
    case False
    then have "k \<notin> set tops \<or> k = ''__proto__''"
      by simp
    then have "column sm k = column (formattedData m axis tops) k"
      by (rule assms(2))
    then show ?thesis
      using False i(1) assms(1) by (auto simp: at column_formattedData)
  qed
  then show ?thesis
    unfolding keys_eq_dom by (auto simp: dom_def)
qed

lemma processData_Inr_cases:
  assumes "processData jsonData axis topN = Inr out"
  shows "\<exists>m. dataLookup_of jsonData = Inr m \<and>
           uniqueUCs out = topUCs (ucTotals m axis (discoveredUCs jsonData)) topN \<and>
           length (chartData out) = length axis \<and>
           (\<forall>k. k \<notin> set (uniqueUCs out) \<or> k = ''__proto__'' \<longrightarrow>
              column (chartData out) k = column (formattedData m axis (uniqueUCs out)) k) \<and>
           (\<forall>u \<in> set (uniqueUCs out). u \<noteq> ''__proto__'' \<longrightarrow> ucData_of (chartData out) u =
              Some (calculateSimpleMovingAverage (map (\<lambda>date. get_or_0 m (lookupKey u date)) axis)))"
proof (cases "dataLookup_of jsonData")
  case (Inl e)
  then show ?thesis
    using assms processData_Inl [OF Inl, of axis topN] by simp
next
  case (Inr m)
  let ?tops = "topUCs (ucTotals m axis (discoveredUCs jsonData)) topN"
  from processData_Inr [OF Inr refl, of axis topN] obtain sm where sm:
      "processData jsonData axis topN = Inr \<lparr>chartData = sm, uniqueUCs = ?tops\<rparr> \<and>
       length sm = length axis \<and>
       (\<forall>k. k \<notin> set ?tops \<or> k = ''__proto__'' \<longrightarrow>
          column sm k = column (formattedData m axis ?tops) k) \<and>
       (\<forall>u \<in> set ?tops. u \<noteq> ''__proto__'' \<longrightarrow> ucData_of sm u =
          Some (calculateSimpleMovingAverage (map (\<lambda>date. get_or_0 m (lookupKey u date)) axis)))" ..
  then have out: "out = \<lparr>chartData = sm, uniqueUCs = ?tops\<rparr>"
    using assms by simp
  have "chartData out = sm" "uniqueUCs out = ?tops"
    by (simp_all add: out)
  then show ?thesis
    using sm Inr by (intro exI [of _ m]) simp
qed

lemma processData_Inr_parts:
  assumes "processData jsonData axis topN = Inr out"
  obtains m where "dataLookup_of jsonData = Inr m"
    and "uniqueUCs out = topUCs (ucTotals m axis (discoveredUCs jsonData)) topN"
    and "length (chartData out) = length axis"
    and "\<And>k. k \<notin> set (uniqueUCs out) \<or> k = ''__proto__'' \<Longrightarrow>
           column (chartData out) k = column (formattedData m axis (uniqueUCs out)) k"
    and "\<And>u. u \<in> set (uniqueUCs out) \<Longrightarrow> u \<noteq> ''__proto__'' \<Longrightarrow> ucData_of (chartData out) u =
           Some (calculateSimpleMovingAverage (map (\<lambda>date. get_or_0 m (lookupKey u date)) axis))"
proof -
  from processData_Inr_cases [OF assms] obtain m where all:
      "dataLookup_of jsonData = Inr m \<and>
       uniqueUCs out = topUCs (ucTotals m axis (discoveredUCs jsonData)) topN \<and>
       length (chartData out) = length axis \<and>
       (\<forall>k. k \<notin> set (uniqueUCs out) \<or> k = ''__proto__'' \<longrightarrow>
          column (chartData out) k = column (formattedData m axis (uniqueUCs out)) k) \<and>
       (\<forall>u \<in> set (uniqueUCs out). u \<noteq> ''__proto__'' \<longrightarrow> ucData_of (chartData out) u =
          Some (calculateSimpleMovingAverage (map (\<lambda>date. get_or_0 m (lookupKey u date)) axis)))" ..
  have "dataLookup_of jsonData = Inr m"
    and "uniqueUCs out = topUCs (ucTotals m axis (discoveredUCs jsonData)) topN"
    and "length (chartData out) = length axis"
    and "\<And>k. k \<notin> set (uniqueUCs out) \<or> k = ''__proto__'' \<Longrightarrow>
           column (chartData out) k = column (formattedData m axis (uniqueUCs out)) k"
    and "\<And>u. u \<in> set (uniqueUCs out) \<Longrightarrow> u \<noteq> ''__proto__'' \<Longrightarrow> ucData_of (chartData out) u =
           Some (calculateSimpleMovingAverage (map (\<lambda>date. get_or_0 m (lookupKey u date)) axis))"
    using all by simp_all
  then show ?thesis
    by (rule that)
qed

lemma processData_total:
  assumes "\<forall>item \<in> set jsonData. CHR ''/'' \<in> set (confirmation_date item)"
  shows "\<exists>out. processData jsonData axis topN = Inr out"
proof -
  obtain m where m: "dataLookup_of jsonData = Inr m"
    using assms dataLookup_of_cases [of jsonData] by auto
  from processData_Inr [OF m refl, of axis topN] obtain sm where
    "processData jsonData axis topN
       = Inr \<lparr>chartData = sm, uniqueUCs = topUCs (ucTotals m axis (discoveredUCs jsonData)) topN\<rparr>"
    by (elim exE conjE)
  then show ?thesis
    by (rule exI)
qed

text \<open>
  The end-to-end scenario of the specification.
\<close>

lemma processData_scenario:
  "processData [\<lparr>name = ''X'', confirmation_date = ''7/1/2024'', value = 5\<rparr>,
     \<lparr>name = ''X'', confirmation_date = ''7/2/2024'', value = 7\<rparr>] [''2024-07-01'', ''2024-07-02''] 1
   = Inr \<lparr>chartData = [[(''date'', Str ''2024-07-01''), (''X'', Num 5)],
                        [(''date'', Str ''2024-07-02''), (''X'', Num 7)]], uniqueUCs = [''X'']\<rparr>"
  by code_simp



text \<open>
  C6. For distinct selected series and a matrix that holds a number in every selected
  column, smoothing succeeds and leaves in the column of a selected series the moving
  average of the raw values of that column; hence two matrices that agree on the raw values
  of that column agree on its smoothed values, whatever their other columns hold. In the
  callback, the returned column of a selected series other than \<^verbatim>\<open>__proto__\<close> is the moving
  average of the values looked up for that series along the axis.
\<close>

theorem smoothing_per_column:
  "(distinct tops \<and> uc \<in> set tops \<and> (\<forall>u \<in> set tops. \<exists>raw. ucData_of points u = Some raw) \<longrightarrow>
     (\<exists>sm raw. smooth points tops = Some sm \<and> ucData_of points uc = Some raw \<and>
        ucData_of sm uc = Some (calculateSimpleMovingAverage raw)) \<and>
     (\<forall>points'. (\<forall>u \<in> set tops. \<exists>raw. ucData_of points' u = Some raw) \<and>
        ucData_of points' uc = ucData_of points uc \<longrightarrow>
        (\<exists>sm sm'. smooth points tops = Some sm \<and> smooth points' tops = Some sm' \<and>
           ucData_of sm' uc = ucData_of sm uc))) \<and>
   (processData jsonData axis topN = Inr out \<and> series \<in> set (uniqueUCs out) \<and>
      series \<noteq> ''__proto__'' \<longrightarrow>
     (\<exists>dataLookup. dataLookup_of jsonData = Inr dataLookup \<and>
        ucData_of (chartData out) series =
          Some (calculateSimpleMovingAverage
                  (map (\<lambda>date. case dataLookup (lookupKey series date) of None \<Rightarrow> 0 | Some v \<Rightarrow> v)
                     axis))))"
proof (intro conjI impI; (elim conjE)?)
  assume run: "processData jsonData axis topN = Inr out" and s: "series \<in> set (uniqueUCs out)"
    and n: "series \<noteq> ''__proto__''"
  from run obtain m where m: "dataLookup_of jsonData = Inr m"
      "uniqueUCs out = topUCs (ucTotals m axis (discoveredUCs jsonData)) topN"
      "length (chartData out) = length axis"
      "\<And>k. k \<notin> set (uniqueUCs out) \<or> k = ''__proto__'' \<Longrightarrow>
         column (chartData out) k = column (formattedData m axis (uniqueUCs out)) k"
      "\<And>u. u \<in> set (uniqueUCs out) \<Longrightarrow> u \<noteq> ''__proto__'' \<Longrightarrow> ucData_of (chartData out) u =
         Some (calculateSimpleMovingAverage (map (\<lambda>date. get_or_0 m (lookupKey u date)) axis))"
    by (rule processData_Inr_parts) blast
  have "ucData_of (chartData out) series =
          Some (calculateSimpleMovingAverage
                  (map (\<lambda>date. case m (lookupKey series date) of None \<Rightarrow> 0 | Some v \<Rightarrow> v) axis))"
    using m(5) [OF s n] by (simp add: get_or_0_eq)
  then show "\<exists>dataLookup. dataLookup_of jsonData = Inr dataLookup \<and>
        ucData_of (chartData out) series =
          Some (calculateSimpleMovingAverage
                  (map (\<lambda>date. case dataLookup (lookupKey series date) of None \<Rightarrow> 0 | Some v \<Rightarrow> v)
                     axis))"
    using m(1) by (intro exI [of _ m] conjI)
next
  assume d: "distinct tops" and uc: "uc \<in> set tops"
    and dense: "\<forall>u \<in> set tops. \<exists>raw. ucData_of points u = Some raw"
  obtain raw where raw: "ucData_of points uc = Some raw"
    using dense uc by auto
  obtain sm where sm: "smooth points tops = Some sm"
      "ucData_of sm uc = Some (calculateSimpleMovingAverage raw)"
    using smooth_dense [OF d dense uc raw] by (elim exE conjE)
  have "\<exists>sm sm'. smooth points tops = Some sm \<and> smooth points' tops = Some sm' \<and>
           ucData_of sm' uc = ucData_of sm uc"
    if "(\<forall>u \<in> set tops. \<exists>raw. ucData_of points' u = Some raw) \<and>
        ucData_of points' uc = ucData_of points uc" for points'
  proof -
    have dense': "\<forall>u \<in> set tops. \<exists>raw. ucData_of points' u = Some raw"
      using that by simp
    have raw': "ucData_of points' uc = Some raw"
      using that raw by simp
    obtain sm' where "smooth points' tops = Some sm'"
      "ucData_of sm' uc = Some (calculateSimpleMovingAverage raw)"
      using smooth_dense [OF d dense' uc raw'] by (elim exE conjE)
    then show ?thesis
      using sm by simp
  qed
  then show "\<forall>points'. (\<forall>u \<in> set tops. \<exists>raw. ucData_of points' u = Some raw) \<and>
        ucData_of points' uc = ucData_of points uc \<longrightarrow>
        (\<exists>sm sm'. smooth points tops = Some sm \<and> smooth points' tops = Some sm' \<and>
           ucData_of sm' uc = ucData_of sm uc)"
    by (intro allI impI)
  show "\<exists>sm raw. smooth points tops = Some sm \<and> ucData_of points uc = Some raw \<and>
        ucData_of sm uc = Some (calculateSimpleMovingAverage raw)"
    using sm raw by (intro exI [of _ sm] exI [of _ raw] conjI)
qed

theorem smoothing_per_column_witness:
  "\<exists>sm sm'.
     smooth (map (\<lambda>(a, b). [(''date'', Str ''d''), (''A'', Num a), (''B'', Num b)])
               [(9, 1), (9, 2), (9, 3), (9, 4), (9, 5), (9, 6), (9, 7), (9, 8), (9, 9), (9, 10),
                (9, 11), (9, 12), (9, 13), (9, 14)]) [''A'', ''B''] = Some sm \<and>
     smooth (map (\<lambda>(a, b). [(''date'', Str ''d''), (''A'', Num a), (''B'', Num b)])
               [(1, 1), (0, 2), (0, 3), (7, 4), (0, 5), (0, 6), (0, 7), (0, 8), (0, 9), (0, 10),
                (0, 11), (0, 12), (0, 13), (70, 14)]) [''A'', ''B''] = Some sm' \<and>
     ucData_of sm' ''B'' = ucData_of sm ''B'' \<and>
     ucData_of sm ''B'' = Some [1, 2, 3, 4, 5, 6, 7, 8, 9, 10, 11, 12, 13, 15 / 2]"
proof -
  let ?row = "\<lambda>(a, b). [(''date'', Str ''d''), (''A'', Num a), (''B'', Num b)]"
  let ?P = "map ?row [(9, 1), (9, 2), (9, 3), (9, 4), (9, 5), (9, 6), (9, 7), (9, 8), (9, 9),
                (9, 10), (9, 11), (9, 12), (9, 13), (9, 14)]"
  let ?P' = "map ?row [(1, 1), (0, 2), (0, 3), (7, 4), (0, 5), (0, 6), (0, 7), (0, 8), (0, 9),
                (0, 10), (0, 11), (0, 12), (0, 13), (70, 14)]"
  let ?B = "[1, 2, 3, 4, 5, 6, 7, 8, 9, 10, 11, 12, 13, 14] :: rat list"
  have a: "ucData_of ?P ''A'' = Some [9, 9, 9, 9, 9, 9, 9, 9, 9, 9, 9, 9, 9, 9]"
    by (simp add: ucData_of_def number_at_def)
  have b: "ucData_of ?P ''B'' = Some ?B"
    by (simp add: ucData_of_def number_at_def)
  have a': "ucData_of ?P' ''A'' = Some [1, 0, 0, 7, 0, 0, 0, 0, 0, 0, 0, 0, 0, 70]"
    by (simp add: ucData_of_def number_at_def)
  have b': "ucData_of ?P' ''B'' = Some ?B"
    by (simp add: ucData_of_def number_at_def)
  have sma: "calculateSimpleMovingAverage ?B = [1, 2, 3, 4, 5, 6, 7, 8, 9, 10, 11, 12, 13, 15 / 2]"
    by code_simp
  have pre: "distinct [''A'', ''B''] \<and> ''B'' \<in> set [''A'', ''B''] \<and>
      (\<forall>u \<in> set [''A'', ''B'']. \<exists>raw. ucData_of ?P u = Some raw)"
    using a b by simp
  have pre': "(\<forall>u \<in> set [''A'', ''B'']. \<exists>raw. ucData_of ?P' u = Some raw) \<and>
      ucData_of ?P' ''B'' = ucData_of ?P ''B''"
    using a' b' b by simp
  note inst = smoothing_per_column [of "[''A'', ''B'']" "''B''" ?P, THEN conjunct1, rule_format,
      OF pre]
  obtain sm raw where sm: "smooth ?P [''A'', ''B''] = Some sm" "ucData_of ?P ''B'' = Some raw"
      "ucData_of sm ''B'' = Some (calculateSimpleMovingAverage raw)"
    using inst by blast
  obtain sm' where sm': "smooth ?P' [''A'', ''B''] = Some sm'" "ucData_of sm' ''B'' = ucData_of sm ''B''"
    using inst pre' sm(1) by (metis option.inject)
  have "raw = ?B"
    using sm(2) b by simp
  then have "ucData_of sm ''B'' = Some [1, 2, 3, 4, 5, 6, 7, 8, 9, 10, 11, 12, 13, 15 / 2]"
    using sm(3) sma by simp
  then show ?thesis
    using sm(1) sm' by blast
qed





text \<open>
  C8, as the specification states it, fails: raw dates with non-numeric, missing or extra
  components are normalised without any error, and the callback completes.
\<close>

theorem formatDate_malformed_counterexample:
  "formatDate ''a/b/c'' = Inr ''c-0a-0b'' \<and>
   formatDate ''7/4'' = Inr ''undefined-07-04'' \<and>
   formatDate ''1/2/3/4'' = Inr ''3-01-02'' \<and>
   processData [\<lparr>name = ''X'', confirmation_date = ''7/4'', value = 5\<rparr>] [''2024-07-04''] 1
     = Inr \<lparr>chartData = [[(''date'', Str ''2024-07-04''), (''X'', Num 0)]], uniqueUCs = [''X'']\<rparr>"
  by code_simp

text \<open>
  C8, amended. \<^verbatim>\<open>formatDate\<close> fails exactly on a raw date without any \<^verbatim>\<open>/\<close>, with a TypeError.
  One such record makes the callback fail with that TypeError and return nothing; when every
  raw date contains a \<^verbatim>\<open>/\<close> the callback returns a result.
\<close>

theorem formatDate_failure:
  "(formatDate s = Inl TypeError \<longleftrightarrow> CHR ''/'' \<notin> set s) \<and>
   formatDate s \<noteq> Inl IllTyped \<and>
   ((\<exists>item \<in> set jsonData. CHR ''/'' \<notin> set (confirmation_date item)) \<longrightarrow>
      processData jsonData axis topN = Inl TypeError) \<and>
   ((\<forall>item \<in> set jsonData. CHR ''/'' \<in> set (confirmation_date item)) \<longrightarrow>
      (\<exists>out. processData jsonData axis topN = Inr out))"
proof (intro conjI impI)
  show "formatDate s = Inl TypeError \<longleftrightarrow> CHR ''/'' \<notin> set s"
    by (simp add: formatDate_Inl)
next
  show "formatDate s \<noteq> Inl IllTyped"
    by (simp add: formatDate_Inl)
next
  assume "\<exists>item \<in> set jsonData. CHR ''/'' \<notin> set (confirmation_date item)"
  then have "dataLookup_of jsonData = Inl TypeError"
    using dataLookup_of_cases [of jsonData] by auto
  then show "processData jsonData axis topN = Inl TypeError"
    by (rule processData_Inl)
next
  assume "\<forall>item \<in> set jsonData. CHR ''/'' \<in> set (confirmation_date item)"
  then show "\<exists>out. processData jsonData axis topN = Inr out"
    by (rule processData_total)
qed

theorem formatDate_failure_witness:
  "formatDate ''20240704'' = Inl TypeError \<and>
   processData
     [\<lparr>name = ''X'', confirmation_date = ''7/4/2024'', value = 5\<rparr>,
      \<lparr>name = ''Y'', confirmation_date = ''20240704'', value = 6\<rparr>] [''2024-07-04''] 1
     = Inl TypeError \<and>
   (\<exists>out. processData [\<lparr>name = ''X'', confirmation_date = ''a/b'', value = 5\<rparr>] [''2024-07-04''] 1
            = Inr out)"
proof -
  let ?x = "\<lparr>name = ''X'', confirmation_date = ''7/4/2024'', value = 5::rat\<rparr>"
  let ?y = "\<lparr>name = ''Y'', confirmation_date = ''20240704'', value = 6::rat\<rparr>"
  let ?z = "\<lparr>name = ''X'', confirmation_date = ''a/b'', value = 5::rat\<rparr>"
  have "formatDate ''20240704'' = Inl TypeError"
    using formatDate_failure [of "''20240704''"] by simp
  moreover have "processData [?x, ?y] [''2024-07-04''] 1 = Inl TypeError"
    using formatDate_failure [of _ "[?x, ?y]" "[''2024-07-04'']" 1] by simp
  moreover have "\<exists>out. processData [?z] [''2024-07-04''] 1 = Inr out"
    using formatDate_failure [of _ "[?z]" "[''2024-07-04'']" 1] by simp
  ultimately show ?thesis
    by blast
qed

text \<open>
  When the callback returns for a non-negative \<open>topN\<close>, the number of returned series is the
  minimum of \<open>topN\<close> and the number of distinct names in the records, the matrix has one row
  per axis date, and the keys of every row are \<^verbatim>\<open>date\<close> and the returned series other than
  \<^verbatim>\<open>__proto__\<close>. The callback returns whenever every raw date contains a \<^verbatim>\<open>/\<close>.
\<close>

theorem processData_shape:
  "(processData jsonData axis topN = Inr out \<and> 0 \<le> topN \<longrightarrow>
      length (uniqueUCs out) = min (nat topN) (card (name ` set jsonData)) \<and>
      length (chartData out) = length axis \<and>
      (\<forall>row \<in> set (chartData out).
         fst ` set row = insert ''date'' (set (uniqueUCs out) - {''__proto__''}))) \<and>
   ((\<forall>item \<in> set jsonData. CHR ''/'' \<in> set (confirmation_date item)) \<longrightarrow>
      (\<exists>out. processData jsonData axis topN = Inr out))"
proof (intro conjI impI ballI)
  assume a: "processData jsonData axis topN = Inr out \<and> 0 \<le> topN"
  then have "processData jsonData axis topN = Inr out"
    by simp
  then obtain m where m: "dataLookup_of jsonData = Inr m"
      "uniqueUCs out = topUCs (ucTotals m axis (discoveredUCs jsonData)) topN"
      "length (chartData out) = length axis"
      "\<And>k. k \<notin> set (uniqueUCs out) \<or> k = ''__proto__'' \<Longrightarrow>
         column (chartData out) k = column (formattedData m axis (uniqueUCs out)) k"
      "\<And>u. u \<in> set (uniqueUCs out) \<Longrightarrow> u \<noteq> ''__proto__'' \<Longrightarrow> ucData_of (chartData out) u =
         Some (calculateSimpleMovingAverage (map (\<lambda>date. get_or_0 m (lookupKey u date)) axis))"
    by (rule processData_Inr_parts) blast
  show "length (uniqueUCs out) = min (nat topN) (card (name ` set jsonData))"
    using a by (simp add: m(2) topUCs_eq slice_0_nonneg length_discoveredUCs min.commute)
  show "length (chartData out) = length axis"
    by (rule m(3))
  fix row
  assume "row \<in> set (chartData out)"
  then show "fst ` set row = insert ''date'' (set (uniqueUCs out) - {''__proto__''})"
    using m(5) by (intro row_keys [OF m(3) m(4)]) auto
next
  assume "\<forall>item \<in> set jsonData. CHR ''/'' \<in> set (confirmation_date item)"
  then show "\<exists>out. processData jsonData axis topN = Inr out"
    by (rule processData_total)
qed

theorem processData_shape_witness:
  "processData
     [\<lparr>name = ''A'', confirmation_date = ''7/1/2024'', value = 5\<rparr>,
      \<lparr>name = ''B'', confirmation_date = ''7/2/2024'', value = 3\<rparr>,
      \<lparr>name = ''A'', confirmation_date = ''7/2/2024'', value = 1\<rparr>]
     [''2024-07-01'', ''2024-07-02''] 5
     = Inr \<lparr>chartData = [[(''date'', Str ''2024-07-01''), (''A'', Num 5), (''B'', Num 0)],
                          [(''date'', Str ''2024-07-02''), (''A'', Num 1), (''B'', Num 3)]],
            uniqueUCs = [''A'', ''B'']\<rparr> \<and>
   length [''A'', ''B''] = min (nat 5) (card (name ` set
     [\<lparr>name = ''A'', confirmation_date = ''7/1/2024'', value = 5\<rparr>,
      \<lparr>name = ''B'', confirmation_date = ''7/2/2024'', value = 3\<rparr>,
      \<lparr>name = ''A'', confirmation_date = ''7/2/2024'', value = 1::rat\<rparr>]))"
proof -
  let ?recs = "[\<lparr>name = ''A'', confirmation_date = ''7/1/2024'', value = 5::rat\<rparr>,
      \<lparr>name = ''B'', confirmation_date = ''7/2/2024'', value = 3\<rparr>,
      \<lparr>name = ''A'', confirmation_date = ''7/2/2024'', value = 1\<rparr>]"
  let ?out = "\<lparr>chartData = [[(''date'', Str ''2024-07-01''), (''A'', Num 5), (''B'', Num 0)],
                          [(''date'', Str ''2024-07-02''), (''A'', Num 1), (''B'', Num 3)]],
            uniqueUCs = [''A'', ''B'']\<rparr>"
  have run: "processData ?recs [''2024-07-01'', ''2024-07-02''] 5 = Inr ?out"
    by code_simp
  have "length (uniqueUCs ?out) = min (nat 5) (card (name ` set ?recs))"
    using processData_shape [of ?recs "[''2024-07-01'', ''2024-07-02'']" 5 ?out] run by simp
  then show ?thesis
    using run by simp
qed

text \<open>
  C10 asks for the keys \<^verbatim>\<open>date\<close> and every returned series in each row. For a series named
  \<^verbatim>\<open>__proto__\<close> the callback returns the series and rows without a key for it: the write
  \<^verbatim>\<open>dataPoint[uc] = ...\<close> that fills the row creates no property, and the write of the smoothing
  loop does not either.
\<close>

theorem processData_proto_row:
  "processData [\<lparr>name = ''__proto__'', confirmation_date = ''7/1/2024'', value = 5\<rparr>]
     [''2024-07-01''] 5
   = Inr \<lparr>chartData = [[(''date'', Str ''2024-07-01'')]], uniqueUCs = [''__proto__'']\<rparr>"
  by code_simp

end
